theory Spec2Isabelle
  imports Main "HOL-Library.Word"
begin

unbundle bit_operations_syntax

text \<open>
  A shallow embedding of \<^verbatim>\<open>nyancat-huffman.c\<close>: the bit reader, the Huffman opcode
  decoder, the delta/run-length frame reconstruction and the frame splitting of \<open>main\<close>,
  followed by the properties proved about them. The display registers, the palette and
  the animation loop are outside the embedding.
\<close>

section \<open>Data model of nyancat-huffman.c\<close>

type_synonym u8 = "8 word"
type_synonym u16 = "16 word"
type_synonym u32 = "32 word"

text \<open>
  C has no exceptions; what can go wrong in this program is an access outside an array
  (undefined behaviour) and the use of a local variable that was never assigned
  (an indeterminate value). Both are values of the model.
\<close>

datatype error = ReadPastEnd | WritePastEnd | UninitRead

definition FRAME_SIZE :: nat where
  "FRAME_SIZE = 4096"

definition FRAME_COUNT :: nat where
  "FRAME_COUNT = 12"

text \<open>
  A C array is a list of its elements. The index is the C \<open>int\<close> of the source. The
  counters of this program stay far inside the range of a 32-bit \<open>int\<close> (the delta cursor
  below 4096 + 1024, \<open>opcode_count\<close> up to 8192, \<open>bits_read\<close> up to 6 * 8192), so \<open>int\<close>
  is modelled by the integers.
\<close>

definition array_read :: "'a list \<Rightarrow> int \<Rightarrow> error + 'a" where
  "array_read xs i =
     (if 0 \<le> i \<and> i < int (length xs) then Inr (xs ! nat i) else Inl ReadPastEnd)"

definition array_write :: "'a list \<Rightarrow> int \<Rightarrow> 'a \<Rightarrow> error + 'a list" where
  "array_write xs i v =
     (if 0 \<le> i \<and> i < int (length xs) then Inr (xs[nat i := v]) else Inl WritePastEnd)"

section \<open>Huffman decompression\<close>

text \<open>The bit stream reader \<^verbatim>\<open>BitStream\<close>; \<open>data\<close> is the array the pointer refers to.\<close>

record BitStream =
  buffer :: u32
  bits_available :: int
  data :: "u8 list"
  data_pos :: int

definition bitstream_init :: "u8 list \<Rightarrow> BitStream" where
  "bitstream_init d = \<lparr>buffer = 0, bits_available = 0, data = d, data_pos = 0\<rparr>"

text \<open>
  \<open>bitstream_read_bit\<close>: refill the buffer from the next byte when it is empty, then
  take bit 7 and shift the buffer left. The reader makes no bounds check; a refill at a
  position outside \<open>data\<close> is the error \<open>ReadPastEnd\<close>.
\<close>

definition bitstream_read_bit :: "BitStream \<Rightarrow> error + (u32 \<times> BitStream)" where
  "bitstream_read_bit bs =
     (case (if bits_available bs = 0 then
              (case array_read (data bs) (data_pos bs) of
                 Inl e \<Rightarrow> Inl e
               | Inr byte \<Rightarrow>
                   Inr (bs\<lparr>buffer := ucast byte, data_pos := data_pos bs + 1,
                           bits_available := 8\<rparr>))
            else Inr bs) of
        Inl e \<Rightarrow> Inl e
      | Inr bs1 \<Rightarrow>
          Inr (drop_bit 7 (buffer bs1) AND 1,
               bs1\<lparr>buffer := push_bit 1 (buffer bs1),
                    bits_available := bits_available bs1 - 1\<rparr>))"

text \<open>
  Modelled from the spec: the header \<^verbatim>\<open>nyancat-huffman.h\<close> (the type \<^verbatim>\<open>HuffmanEntry\<close> and
  the constants \<^verbatim>\<open>huffman_table\<close>, \<^verbatim>\<open>huffman_compressed_data\<close> and
  \<^verbatim>\<open>HUFFMAN_BITSTREAM_LEN\<close>) is not among the sources. An entry is a triple of a code
  value, a code length in bits and an 8-bit opcode; the three constants are parameters
  of the functions that use them. \<open>huffman_decode_opcode\<close> compares the fields \<open>code_len\<close>
  and \<open>code\<close> with an \<open>int\<close> and a \<open>uint16_t\<close> by \<^verbatim>\<open>==\<close>, that is by value, so the
  two fields are kept as integers whatever their C types are. The local variables
  \<open>opcode\<close> and \<open>code_len\<close> of the C functions are written \<open>op\<close> and \<open>len\<close>, since
  the field names are taken.
\<close>

record HuffmanEntry =
  code :: int
  code_len :: int
  opcode :: u8

text \<open>\<^verbatim>\<open>current_code = (current_code << 1) | bit;\<close> on a \<open>uint16_t\<close>.\<close>

definition shift_in :: "u16 \<Rightarrow> u32 \<Rightarrow> u16" where
  "shift_in current_code b = push_bit 1 current_code OR ucast b"

text \<open>The inner \<open>for\<close> loop of \<open>huffman_decode_opcode\<close>: the first entry, in table order,
  whose length and code both match.\<close>

fun table_scan :: "HuffmanEntry list \<Rightarrow> int \<Rightarrow> u16 \<Rightarrow> u8 option" where
  "table_scan [] len current_code = None"
| "table_scan (e # es) len current_code =
     (if code_len e = len \<and> code e = uint current_code then Some (opcode e)
      else table_scan es len current_code)"

text \<open>The \<open>while (code_len < 16)\<close> loop of \<open>huffman_decode_opcode\<close>.\<close>

function decode_loop ::
  "HuffmanEntry list \<Rightarrow> u16 \<Rightarrow> int \<Rightarrow> BitStream \<Rightarrow> error + (u8 \<times> BitStream)" where
  "decode_loop huffman_table current_code len bs =
     (if len < 16 then
        (case bitstream_read_bit bs of
           Inl e \<Rightarrow> Inl e
         | Inr (b, bs') \<Rightarrow>
             (case table_scan huffman_table (len + 1) (shift_in current_code b) of
                Some op \<Rightarrow> Inr (op, bs')
              | None \<Rightarrow> decode_loop huffman_table (shift_in current_code b) (len + 1) bs'))
      else Inr (0xFF, bs))"
  by pat_completeness auto
termination
  by (relation "measure (\<lambda>(t, c, len, bs). nat (16 - len))") auto

declare decode_loop.simps [simp del]

definition huffman_decode_opcode ::
  "HuffmanEntry list \<Rightarrow> BitStream \<Rightarrow> error + (u8 \<times> BitStream)" where
  "huffman_decode_opcode huffman_table bs = decode_loop huffman_table 0 0 bs"

text \<open>
  The loop of \<open>huffman_decompress_all_opcodes\<close>; the state is the bit stream, the global
  \<open>opcodes_buffer\<close>, \<open>opcode_count\<close> and \<open>bits_read\<close>. The \<^verbatim>\<open>break\<close> returns at once.
\<close>

function opcodes_loop ::
  "HuffmanEntry list \<Rightarrow> int \<Rightarrow> BitStream \<times> u8 list \<times> int \<times> int \<Rightarrow> error + (u8 list \<times> int)" where
  "opcodes_loop huffman_table bitstream_len (bs, opcodes_buffer, opcode_count, bits_read) =
     (if bits_read < bitstream_len \<and> opcode_count < 8192 then
        (case huffman_decode_opcode huffman_table bs of
           Inl e \<Rightarrow> Inl e
         | Inr (op, bs') \<Rightarrow>
             (case array_write opcodes_buffer opcode_count op of
                Inl e \<Rightarrow> Inl e
              | Inr opcodes_buffer' \<Rightarrow>
                  if op = 0xFF \<and> opcode_count + 1 > 4000
                  then Inr (opcodes_buffer', opcode_count + 1)
                  else opcodes_loop huffman_table bitstream_len
                         (bs', opcodes_buffer', opcode_count + 1, bits_read + 6)))
      else Inr (opcodes_buffer, opcode_count))"
  by pat_completeness auto
termination
  by (relation "measure (\<lambda>(t, l, bs, buf, opcode_count, bits_read). nat (8192 - opcode_count))")
    auto

declare opcodes_loop.simps [simp del]

text \<open>
  \<open>huffman_decompress_all_opcodes\<close>: the table, the payload and
  \<^verbatim>\<open>HUFFMAN_BITSTREAM_LEN\<close> are the parameters; the result is the opcode buffer and the
  count returned.
\<close>

definition huffman_decompress_all_opcodes ::
  "HuffmanEntry list \<Rightarrow> u8 list \<Rightarrow> int \<Rightarrow> u8 list \<Rightarrow> error + (u8 list \<times> int)" where
  "huffman_decompress_all_opcodes huffman_table huffman_compressed_data bitstream_len
       opcodes_buffer =
     opcodes_loop huffman_table bitstream_len
       (bitstream_init huffman_compressed_data, opcodes_buffer, 0, 0)"

section \<open>Delta-RLE decompression\<close>

text \<open>
  \<^verbatim>\<open>for (int j = 0; j < count && pos < FRAME_SIZE; j++) frame_buffer[pos++] = current_color;\<close>
  The same loop paints in frame 0 (where the cursor is called \<open>output_index\<close>) and in
  the delta frames.
\<close>

function repeat_loop :: "int \<Rightarrow> int \<Rightarrow> u8 \<Rightarrow> u8 list \<times> int \<Rightarrow> error + (u8 list \<times> int)" where
  "repeat_loop j count current_color (frame_buffer, pos) =
     (if j < count \<and> pos < int FRAME_SIZE then
        (case array_write frame_buffer pos current_color of
           Inl e \<Rightarrow> Inl e
         | Inr frame_buffer' \<Rightarrow> repeat_loop (j + 1) count current_color (frame_buffer', pos + 1))
      else Inr (frame_buffer, pos))"
  by pat_completeness auto
termination
  by (relation "measure (\<lambda>(j, count, c, s). nat (count - j))") auto

declare repeat_loop.simps [simp del]

text \<open>\<^verbatim>\<open>while (output_index < FRAME_SIZE) frame_buffer[output_index++] = 0;\<close>\<close>

function fill_loop :: "u8 list \<times> int \<Rightarrow> error + (u8 list \<times> int)" where
  "fill_loop (frame_buffer, output_index) =
     (if output_index < int FRAME_SIZE then
        (case array_write frame_buffer output_index 0 of
           Inl e \<Rightarrow> Inl e
         | Inr frame_buffer' \<Rightarrow> fill_loop (frame_buffer', output_index + 1))
      else Inr (frame_buffer, output_index))"
  by pat_completeness auto
termination
  by (relation "measure (\<lambda>(fb, output_index). nat (int FRAME_SIZE - output_index))") auto

declare fill_loop.simps [simp del]

text \<open>
  \<^verbatim>\<open>for (int i = 0; i < FRAME_SIZE; i++) dst[i] = src[i];\<close>
  used twice: \<open>frame_buffer\<close> from \<open>prev_frame_buffer\<close> before a delta, and
  \<open>prev_frame_buffer\<close> from \<open>frame_buffer\<close> after every frame.
\<close>

function copy_loop :: "int \<Rightarrow> u8 list \<Rightarrow> u8 list \<Rightarrow> error + u8 list" where
  "copy_loop i src dst =
     (if i < int FRAME_SIZE then
        (case array_read src i of
           Inl e \<Rightarrow> Inl e
         | Inr v \<Rightarrow>
             (case array_write dst i v of
                Inl e \<Rightarrow> Inl e
              | Inr dst' \<Rightarrow> copy_loop (i + 1) src dst'))
      else Inr dst)"
  by pat_completeness auto
termination
  by (relation "measure (\<lambda>(i, src, dst). nat (int FRAME_SIZE - i))") auto

declare copy_loop.simps [simp del]

text \<open>
  The body of the frame-0 loop after the terminator test: the state is
  (\<open>frame_buffer\<close>, \<open>output_index\<close>, \<open>current_color\<close>).
\<close>

definition frame0_opcode :: "u8 \<Rightarrow> u8 list \<times> int \<times> u8 \<Rightarrow> error + (u8 list \<times> int \<times> u8)" where
  "frame0_opcode op s =
     (case s of (frame_buffer, output_index, current_color) \<Rightarrow>
        if op AND 0xF0 = 0x00 then Inr (frame_buffer, output_index, op AND 0x0F)
        else if op AND 0xF0 = 0x20 then
          (case repeat_loop 0 (uint (op AND 0x0F) + 1) current_color
                  (frame_buffer, output_index) of
             Inl e \<Rightarrow> Inl e
           | Inr (frame_buffer', output_index') \<Rightarrow>
               Inr (frame_buffer', output_index', current_color))
        else if op AND 0xF0 = 0x30 then
          (case repeat_loop 0 ((uint (op AND 0x0F) + 1) * 16) current_color
                  (frame_buffer, output_index) of
             Inl e \<Rightarrow> Inl e
           | Inr (frame_buffer', output_index') \<Rightarrow>
               Inr (frame_buffer', output_index', current_color))
        else Inr s)"

text \<open>
  \<^verbatim>\<open>for (int i = 0; i < opcode_len && output_index < FRAME_SIZE; i++)\<close> of frame 0.
  \<open>opcodes\<close> is the memory the pointer argument may read.
\<close>

function frame0_loop ::
  "u8 list \<Rightarrow> int \<Rightarrow> int \<Rightarrow> u8 list \<times> int \<times> u8 \<Rightarrow> error + (u8 list \<times> int \<times> u8)" where
  "frame0_loop opcodes opcode_len i (frame_buffer, output_index, current_color) =
     (if i < opcode_len \<and> output_index < int FRAME_SIZE then
        (case array_read opcodes i of
           Inl e \<Rightarrow> Inl e
         | Inr op \<Rightarrow>
             if op = 0xFF then Inr (frame_buffer, output_index, current_color)
             else
               (case frame0_opcode op (frame_buffer, output_index, current_color) of
                  Inl e \<Rightarrow> Inl e
                | Inr s' \<Rightarrow> frame0_loop opcodes opcode_len (i + 1) s'))
      else Inr (frame_buffer, output_index, current_color))"
  by pat_completeness auto
termination
  by (relation "measure (\<lambda>(opcodes, opcode_len, i, s). nat (opcode_len - i))") auto

declare frame0_loop.simps [simp del]

text \<open>The body of the delta loop after the terminator test; the state is
  (\<open>frame_buffer\<close>, \<open>pos\<close>, \<open>current_color\<close>).\<close>

definition delta_opcode :: "u8 \<Rightarrow> u8 list \<times> int \<times> u8 \<Rightarrow> error + (u8 list \<times> int \<times> u8)" where
  "delta_opcode op s =
     (case s of (frame_buffer, pos, current_color) \<Rightarrow>
        if op AND 0xF0 = 0x00 then Inr (frame_buffer, pos, op AND 0x0F)
        else if op AND 0xF0 = 0x10 then
          Inr (frame_buffer, pos + (uint (op AND 0x0F) + 1), current_color)
        else if op AND 0xF0 = 0x20 then
          (case repeat_loop 0 (uint (op AND 0x0F) + 1) current_color (frame_buffer, pos) of
             Inl e \<Rightarrow> Inl e
           | Inr (frame_buffer', pos') \<Rightarrow> Inr (frame_buffer', pos', current_color))
        else if op AND 0xF0 = 0x30 then
          Inr (frame_buffer, pos + (uint (op AND 0x0F) + 1) * 16, current_color)
        else if op AND 0xF0 = 0x40 then
          (case repeat_loop 0 ((uint (op AND 0x0F) + 1) * 16) current_color
                  (frame_buffer, pos) of
             Inl e \<Rightarrow> Inl e
           | Inr (frame_buffer', pos') \<Rightarrow> Inr (frame_buffer', pos', current_color))
        else if op AND 0xF0 = 0x50 then
          Inr (frame_buffer, pos + (uint (op AND 0x0F) + 1) * 64, current_color)
        else Inr s)"

function delta_loop ::
  "u8 list \<Rightarrow> int \<Rightarrow> int \<Rightarrow> u8 list \<times> int \<times> u8 \<Rightarrow> error + (u8 list \<times> int \<times> u8)" where
  "delta_loop opcodes opcode_len i (frame_buffer, pos, current_color) =
     (if i < opcode_len \<and> pos < int FRAME_SIZE then
        (case array_read opcodes i of
           Inl e \<Rightarrow> Inl e
         | Inr op \<Rightarrow>
             if op = 0xFF then Inr (frame_buffer, pos, current_color)
             else
               (case delta_opcode op (frame_buffer, pos, current_color) of
                  Inl e \<Rightarrow> Inl e
                | Inr s' \<Rightarrow> delta_loop opcodes opcode_len (i + 1) s'))
      else Inr (frame_buffer, pos, current_color))"
  by pat_completeness auto
termination
  by (relation "measure (\<lambda>(opcodes, opcode_len, i, s). nat (opcode_len - i))") auto

declare delta_loop.simps [simp del]

text \<open>
  \<open>decompress_frame\<close> up to, and without, the final "save for next delta" copy:
  the result is the frame buffer together with the cursor and the colour register at
  the end of the branch taken.
\<close>

definition decompress_frame_cursor ::
  "int \<Rightarrow> u8 list \<Rightarrow> int \<Rightarrow> u8 list \<times> u8 list \<Rightarrow> error + (u8 list \<times> int \<times> u8)" where
  "decompress_frame_cursor frame_index opcodes opcode_len bufs =
     (case bufs of (frame_buffer, prev_frame_buffer) \<Rightarrow>
        if frame_index = 0 then
          (case frame0_loop opcodes opcode_len 0 (frame_buffer, 0, 0) of
             Inl e \<Rightarrow> Inl e
           | Inr (frame_buffer', output_index, current_color) \<Rightarrow>
               (case fill_loop (frame_buffer', output_index) of
                  Inl e \<Rightarrow> Inl e
                | Inr (frame_buffer'', output_index') \<Rightarrow>
                    Inr (frame_buffer'', output_index', current_color)))
        else
          (case copy_loop 0 prev_frame_buffer frame_buffer of
             Inl e \<Rightarrow> Inl e
           | Inr frame_buffer' \<Rightarrow> delta_loop opcodes opcode_len 0 (frame_buffer', 0, 0)))"

text \<open>
  \<open>decompress_frame\<close>: the two global buffers (\<open>frame_buffer\<close>, \<open>prev_frame_buffer\<close>)
  are passed in and returned.
\<close>

definition decompress_frame ::
  "int \<Rightarrow> u8 list \<Rightarrow> int \<Rightarrow> u8 list \<times> u8 list \<Rightarrow> error + (u8 list \<times> u8 list)" where
  "decompress_frame frame_index opcodes opcode_len bufs =
     (case decompress_frame_cursor frame_index opcodes opcode_len bufs of
        Inl e \<Rightarrow> Inl e
      | Inr (frame_buffer', pos, current_color) \<Rightarrow>
          (case copy_loop 0 frame_buffer' (snd bufs) of
             Inl e \<Rightarrow> Inl e
           | Inr prev_frame_buffer' \<Rightarrow> Inr (frame_buffer', prev_frame_buffer')))"

section \<open>Frame boundaries in \<open>main\<close>\<close>

text \<open>
  \<^verbatim>\<open>int frame_starts[FRAME_COUNT + 1];\<close> is a local array without initialiser: an element
  holds a value only once it has been assigned (\<open>None\<close> before). Reading an element that
  was never assigned is the error \<open>UninitRead\<close>.
\<close>

definition local_read :: "int option list \<Rightarrow> int \<Rightarrow> error + int" where
  "local_read xs i =
     (case array_read xs i of
        Inl e \<Rightarrow> Inl e
      | Inr None \<Rightarrow> Inl UninitRead
      | Inr (Some v) \<Rightarrow> Inr v)"

text \<open>Step 2 of \<open>main\<close>:
  \<^verbatim>\<open>for (int i = 0; i < total_opcodes && frame_count < FRAME_COUNT; i++)\<close>.\<close>

function frame_starts_loop ::
  "u8 list \<Rightarrow> int \<Rightarrow> int \<Rightarrow> int option list \<times> int \<Rightarrow> error + (int option list \<times> int)" where
  "frame_starts_loop opcodes_buffer total_opcodes i (frame_starts, frame_count) =
     (if i < total_opcodes \<and> frame_count < int FRAME_COUNT then
        (case array_read opcodes_buffer i of
           Inl e \<Rightarrow> Inl e
         | Inr op \<Rightarrow>
             if op = 0xFF then
               (case array_write frame_starts (frame_count + 1) (Some (i + 1)) of
                  Inl e \<Rightarrow> Inl e
                | Inr frame_starts' \<Rightarrow>
                    frame_starts_loop opcodes_buffer total_opcodes (i + 1)
                      (frame_starts', frame_count + 1))
             else frame_starts_loop opcodes_buffer total_opcodes (i + 1)
                    (frame_starts, frame_count))
      else Inr (frame_starts, frame_count))"
  by pat_completeness auto
termination
  by (relation "measure (\<lambda>(buf, total_opcodes, i, s). nat (total_opcodes - i))") auto

declare frame_starts_loop.simps [simp del]

definition find_frame_starts :: "u8 list \<Rightarrow> int \<Rightarrow> error + (int option list \<times> int)" where
  "find_frame_starts opcodes_buffer total_opcodes =
     frame_starts_loop opcodes_buffer total_opcodes 0
       ((replicate (FRAME_COUNT + 1) None)[0 := Some 0], 0)"

text \<open>Step 3 of \<open>main\<close>, the segment of one frame: \<open>start\<close> and \<open>len = end - start\<close>.\<close>

definition frame_segment :: "int option list \<Rightarrow> int \<Rightarrow> error + (int \<times> int)" where
  "frame_segment frame_starts frame =
     (case local_read frame_starts frame of
        Inl e \<Rightarrow> Inl e
      | Inr start \<Rightarrow>
          (case local_read frame_starts (frame + 1) of
             Inl e \<Rightarrow> Inl e
           | Inr endp \<Rightarrow> Inr (start, endp - start)))"

text \<open>The segments of the frames \<open>frame\<close>, ..., 11 in order, as step 3 computes them.\<close>

function segments_from :: "int option list \<Rightarrow> int \<Rightarrow> error + (int \<times> int) list" where
  "segments_from frame_starts frame =
     (if frame < int FRAME_COUNT then
        (case frame_segment frame_starts frame of
           Inl e \<Rightarrow> Inl e
         | Inr seg \<Rightarrow>
             (case segments_from frame_starts (frame + 1) of
                Inl e \<Rightarrow> Inl e
              | Inr segs \<Rightarrow> Inr (seg # segs)))
      else Inr [])"
  by pat_completeness auto
termination
  by (relation "measure (\<lambda>(fs, frame). nat (int FRAME_COUNT - frame))") auto

declare segments_from.simps [simp del]

text \<open>Steps 2 and 3 of \<open>main\<close> without the decoding: the twelve (start, len) pairs.\<close>

definition split_segments :: "u8 list \<Rightarrow> int \<Rightarrow> error + (int \<times> int) list" where
  "split_segments opcodes_buffer total_opcodes =
     (case find_frame_starts opcodes_buffer total_opcodes of
        Inl e \<Rightarrow> Inl e
      | Inr (frame_starts, frame_count) \<Rightarrow> segments_from frame_starts 0)"

text \<open>\<^verbatim>\<open>&opcodes_buffer[start]\<close> with \<open>len\<close>: the opcodes a segment denotes.\<close>

definition segment_opcodes :: "u8 list \<Rightarrow> int \<times> int \<Rightarrow> u8 list" where
  "segment_opcodes opcodes_buffer seg =
     take (nat (snd seg)) (drop (nat (fst seg)) opcodes_buffer)"

text \<open>
  Step 3 of \<open>main\<close>: every frame is decompressed from its segment and uploaded. The
  display registers are outside the model; the frames handed to \<open>vga_upload_frame\<close> are
  collected in order.
\<close>

function frames_loop ::
  "u8 list \<Rightarrow> int option list \<Rightarrow> int \<Rightarrow> u8 list \<times> u8 list \<Rightarrow> u8 list list
     \<Rightarrow> error + u8 list list" where
  "frames_loop opcodes_buffer frame_starts frame bufs uploaded =
     (if frame < int FRAME_COUNT then
        (case frame_segment frame_starts frame of
           Inl e \<Rightarrow> Inl e
         | Inr (start, len) \<Rightarrow>
             if start < 0 \<or> int (length opcodes_buffer) < start then Inl ReadPastEnd
             else
               (case decompress_frame frame (drop (nat start) opcodes_buffer) len bufs of
                  Inl e \<Rightarrow> Inl e
                | Inr bufs' \<Rightarrow>
                    frames_loop opcodes_buffer frame_starts (frame + 1) bufs'
                      (uploaded @ [fst bufs'])))
      else Inr uploaded)"
  by pat_completeness auto
termination
  by (relation "measure (\<lambda>(buf, fs, frame, bufs, up). nat (int FRAME_COUNT - frame))") auto

declare frames_loop.simps [simp del]

text \<open>Steps 2 and 3 of \<open>main\<close> on a decoded opcode buffer.\<close>

definition main_frames ::
  "u8 list \<Rightarrow> int \<Rightarrow> u8 list \<times> u8 list \<Rightarrow> error + u8 list list" where
  "main_frames opcodes_buffer total_opcodes bufs =
     (case find_frame_starts opcodes_buffer total_opcodes of
        Inl e \<Rightarrow> Inl e
      | Inr (frame_starts, frame_count) \<Rightarrow> frames_loop opcodes_buffer frame_starts 0 bufs [])"

section \<open>Notions the properties are stated with\<close>

text \<open>The next \<open>n\<close> bits of a stream, by \<open>n\<close> calls of \<open>bitstream_read_bit\<close>.\<close>

fun read_bits :: "nat \<Rightarrow> BitStream \<Rightarrow> error + (u32 list \<times> BitStream)" where
  "read_bits 0 bs = Inr ([], bs)"
| "read_bits (Suc n) bs =
     (case bitstream_read_bit bs of
        Inl e \<Rightarrow> Inl e
      | Inr (b, bs') \<Rightarrow>
          (case read_bits n bs' of
             Inl e \<Rightarrow> Inl e
           | Inr (bits, bs'') \<Rightarrow> Inr (b # bits, bs'')))"

text \<open>The value \<open>huffman_decode_opcode\<close> has accumulated after the given bits.\<close>

definition accumulate :: "u32 list \<Rightarrow> u16" where
  "accumulate bits = foldl shift_in 0 bits"

text \<open>The \<open>n\<close> low bits of \<open>c\<close>, most significant first.\<close>

fun msb_bits :: "nat \<Rightarrow> int \<Rightarrow> u32 list" where
  "msb_bits 0 c = []"
| "msb_bits (Suc n) c = msb_bits n (c div 2) @ [if odd c then 1 else 0]"

definition codeword_bits :: "HuffmanEntry \<Rightarrow> u32 list" where
  "codeword_bits e = msb_bits (nat (code_len e)) (code e)"

definition valid_codeword :: "HuffmanEntry \<Rightarrow> bool" where
  "valid_codeword e \<longleftrightarrow>
     1 \<le> code_len e \<and> code_len e \<le> 16 \<and> 0 \<le> code e \<and> code e < 2 ^ nat (code_len e)"

text \<open>No valid codeword's bit sequence is an initial part of another valid codeword's
  (nor equal to it: two entries with the same bits are the same entry).\<close>

definition prefix_free :: "HuffmanEntry list \<Rightarrow> bool" where
  "prefix_free huffman_table \<longleftrightarrow>
     (\<forall>e1 \<in> set huffman_table. \<forall>e2 \<in> set huffman_table.
        valid_codeword e1 \<and> valid_codeword e2
        \<and> take (length (codeword_bits e1)) (codeword_bits e2) = codeword_bits e1
        \<longrightarrow> e1 = e2)"

text \<open>None of the first \<open>n\<close> accumulated (length, value) pairs is in the table.\<close>

definition no_match :: "HuffmanEntry list \<Rightarrow> u32 list \<Rightarrow> nat \<Rightarrow> bool" where
  "no_match huffman_table bits n \<longleftrightarrow>
     (\<forall>k \<in> {1..n}. table_scan huffman_table (int k) (accumulate (take k bits)) = None)"

text \<open>The number of 0xFF markers in an opcode sequence.\<close>

definition markers :: "u8 list \<Rightarrow> nat" where
  "markers ops = length (filter (\<lambda>op. op = 0xFF) ops)"

text \<open>
  The invariant of step 2 of \<open>main\<close> at index \<open>i\<close>: \<open>starts\<close> are the frame starts
  assigned so far; each but the first lies just after a marker, there is no other marker
  between two of them, and none between the last one and \<open>i\<close>.
\<close>

definition starts_ok :: "u8 list \<Rightarrow> int list \<Rightarrow> int \<Rightarrow> bool" where
  "starts_ok ops starts i \<longleftrightarrow>
     starts \<noteq> [] \<and> hd starts = 0 \<and> (\<forall>s \<in> set starts. 0 \<le> s \<and> s \<le> i)
     \<and> (\<forall>j. Suc j < length starts \<longrightarrow>
            starts ! j < starts ! Suc j \<and> ops ! nat (starts ! Suc j - 1) = 0xFF
            \<and> (\<forall>p. starts ! j \<le> p \<and> p < starts ! Suc j - 1 \<longrightarrow> ops ! nat p \<noteq> 0xFF))
     \<and> (\<forall>p. last starts \<le> p \<and> p < i \<longrightarrow> ops ! nat p \<noteq> 0xFF)"

text \<open>
  Concrete inputs for the instances: frame, opcode and payload buffers holding zeros, and
  a complete prefix code of three codewords (0, 10 and 11).
\<close>

definition sample_table :: "HuffmanEntry list" where
  "sample_table = [\<lparr>code = 0, code_len = 1, opcode = 0x05\<rparr>,
                   \<lparr>code = 2, code_len = 2, opcode = 0x23\<rparr>,
                   \<lparr>code = 3, code_len = 2, opcode = 0xFF\<rparr>]"

definition zero_payload :: "u8 list" where
  "zero_payload = replicate 16384 0"

definition zero_frame :: "u8 list" where
  "zero_frame = replicate FRAME_SIZE 0"

definition zero_opcodes :: "u8 list" where
  "zero_opcodes = replicate 8192 0"

text \<open>
  The bits a stream can still deliver without leaving its payload, and the states of a
  reader that \<open>bitstream_init\<close> and \<open>bitstream_read_bit\<close> produce.
\<close>

definition bits_left :: "BitStream \<Rightarrow> int" where
  "bits_left bs = 8 * (int (length (data bs)) - data_pos bs) + bits_available bs"

definition stream_ok :: "BitStream \<Rightarrow> bool" where
  "stream_ok bs \<longleftrightarrow>
     0 \<le> bits_available bs \<and> 0 \<le> data_pos bs \<and> data_pos bs \<le> int (length (data bs))"

section \<open>Properties of the frame reconstruction\<close>

subsection \<open>Array accesses and the three inner loops\<close>

lemma array_write_Inr:
  "0 \<le> i \<Longrightarrow> i < int (length xs) \<Longrightarrow> array_write xs i v = Inr (xs[nat i := v])"
  by (simp add: array_write_def)

lemma array_read_Inr:
  "0 \<le> i \<Longrightarrow> i < int (length xs) \<Longrightarrow> array_read xs i = Inr (xs ! nat i)"
  by (simp add: array_read_def)

lemma repeat_loop_spec:
  "0 \<le> pos \<Longrightarrow> length fb = FRAME_SIZE \<Longrightarrow>
   \<exists>fb' pos'. repeat_loop j count c (fb, pos) = Inr (fb', pos')
     \<and> pos' = pos + max 0 (min (count - j) (int FRAME_SIZE - pos))
     \<and> length fb' = FRAME_SIZE
     \<and> (\<forall>k<FRAME_SIZE. fb' ! k = (if pos \<le> int k \<and> int k < pos' then c else fb ! k))"
proof (induction j count c "(fb, pos)" arbitrary: fb pos rule: repeat_loop.induct)
  case (1 j count c fb pos)
  show ?case
  proof (cases "j < count \<and> pos < int FRAME_SIZE")
    case False
    then show ?thesis using 1(3) by (auto simp: repeat_loop.simps[of j count c fb pos])
  next
    case True
    have w: "array_write fb pos c = Inr (fb[nat pos := c])"
      using True 1(2,3) by (simp add: array_write_Inr)
    have len: "length (fb[nat pos := c]) = FRAME_SIZE" using 1(3) by simp
    have pos1: "0 \<le> pos + 1" using 1(2) by simp
    from 1(1)[OF True w pos1 len] obtain fb' pos' where
      r: "repeat_loop (j + 1) count c (fb[nat pos := c], pos + 1) = Inr (fb', pos')"
      and e: "pos' = pos + 1 + max 0 (min (count - (j + 1)) (int FRAME_SIZE - (pos + 1)))"
      and l: "length fb' = FRAME_SIZE"
      and p: "\<forall>k<FRAME_SIZE. fb' ! k =
          (if pos + 1 \<le> int k \<and> int k < pos' then c else fb[nat pos := c] ! k)"
      by blast
    have eq: "repeat_loop j count c (fb, pos) = Inr (fb', pos')"
      using True w r by (simp add: repeat_loop.simps[of j count c fb pos])
    have e': "pos' = pos + max 0 (min (count - j) (int FRAME_SIZE - pos))"
      using True e by (auto simp: min_def max_def)
    have gt: "pos < pos'" using e by linarith
    have "\<forall>k<FRAME_SIZE. fb' ! k = (if pos \<le> int k \<and> int k < pos' then c else fb ! k)"
    proof (intro allI impI)
      fix k assume k: "k < FRAME_SIZE"
      show "fb' ! k = (if pos \<le> int k \<and> int k < pos' then c else fb ! k)"
      proof (cases "int k = pos")
        case True
        then have "nat pos = k" by simp
        then show ?thesis using p k 1(3) True gt by auto
      next
        case False
        then have "nat pos \<noteq> k" using 1(2) by auto
        then show ?thesis using p k 1(3) False by auto
      qed
    qed
    then show ?thesis using eq e' l by blast
  qed
qed

lemma fill_loop_spec:
  "0 \<le> oi \<Longrightarrow> length fb = FRAME_SIZE \<Longrightarrow>
   \<exists>fb'. fill_loop (fb, oi) = Inr (fb', max oi (int FRAME_SIZE))
     \<and> length fb' = FRAME_SIZE
     \<and> (\<forall>k<FRAME_SIZE. fb' ! k = (if oi \<le> int k then 0 else fb ! k))"
proof (induction "(fb, oi)" arbitrary: fb oi rule: fill_loop.induct)
  case (1 fb oi)
  show ?case
  proof (cases "oi < int FRAME_SIZE")
    case False
    then show ?thesis using 1(3) by (auto simp: fill_loop.simps[of fb oi])
  next
    case True
    have w: "array_write fb oi 0 = Inr (fb[nat oi := 0])"
      using True 1(2,3) by (simp add: array_write_Inr)
    have len: "length (fb[nat oi := 0]) = FRAME_SIZE" using 1(3) by simp
    have oi1: "0 \<le> oi + 1" using 1(2) by simp
    from 1(1)[OF True w oi1 len] obtain fb' where
      r: "fill_loop (fb[nat oi := 0], oi + 1) = Inr (fb', max (oi + 1) (int FRAME_SIZE))"
      and l: "length fb' = FRAME_SIZE"
      and p: "\<forall>k<FRAME_SIZE. fb' ! k = (if oi + 1 \<le> int k then 0 else fb[nat oi := 0] ! k)"
      by blast
    have eq: "fill_loop (fb, oi) = Inr (fb', max oi (int FRAME_SIZE))"
      using True w r by (simp add: fill_loop.simps[of fb oi] max_def)
    have "\<forall>k<FRAME_SIZE. fb' ! k = (if oi \<le> int k then 0 else fb ! k)"
    proof (intro allI impI)
      fix k assume k: "k < FRAME_SIZE"
      show "fb' ! k = (if oi \<le> int k then 0 else fb ! k)"
      proof (cases "int k = oi")
        case True
        then have "nat oi = k" by simp
        then show ?thesis using p k 1(3) True by auto
      next
        case False
        then have "nat oi \<noteq> k" using 1(2) by auto
        then show ?thesis using p k 1(3) False by auto
      qed
    qed
    then show ?thesis using eq l by blast
  qed
qed

lemma copy_loop_spec:
  "0 \<le> i \<Longrightarrow> length src = FRAME_SIZE \<Longrightarrow> length dst = FRAME_SIZE \<Longrightarrow>
   \<exists>dst'. copy_loop i src dst = Inr dst'
     \<and> length dst' = FRAME_SIZE
     \<and> (\<forall>k<FRAME_SIZE. dst' ! k = (if i \<le> int k then src ! k else dst ! k))"
proof (induction i src dst rule: copy_loop.induct)
  case (1 i src dst)
  show ?case
  proof (cases "i < int FRAME_SIZE")
    case False
    then show ?thesis using 1(4) by (auto simp: copy_loop.simps[of i src dst])
  next
    case True
    have rd: "array_read src i = Inr (src ! nat i)"
      using True 1(2,3) by (simp add: array_read_Inr)
    have w: "array_write dst i (src ! nat i) = Inr (dst[nat i := src ! nat i])"
      using True 1(2,4) by (simp add: array_write_Inr)
    have len: "length (dst[nat i := src ! nat i]) = FRAME_SIZE" using 1(4) by simp
    have i1: "0 \<le> i + 1" using 1(2) by simp
    from 1(1)[OF True rd w i1 1(3) len] obtain dst' where
      r: "copy_loop (i + 1) src (dst[nat i := src ! nat i]) = Inr dst'"
      and l: "length dst' = FRAME_SIZE"
      and p: "\<forall>k<FRAME_SIZE. dst' ! k =
            (if i + 1 \<le> int k then src ! k else dst[nat i := src ! nat i] ! k)"
      by blast
    have eq: "copy_loop i src dst = Inr dst'"
      using True rd w r by (simp add: copy_loop.simps[of i src dst])
    have "\<forall>k<FRAME_SIZE. dst' ! k = (if i \<le> int k then src ! k else dst ! k)"
    proof (intro allI impI)
      fix k assume k: "k < FRAME_SIZE"
      show "dst' ! k = (if i \<le> int k then src ! k else dst ! k)"
      proof (cases "int k = i")
        case True
        then have "nat i = k" by simp
        then show ?thesis using p k 1(4) True by auto
      next
        case False
        then have "nat i \<noteq> k" using 1(2) by auto
        then show ?thesis using p k 1(4) False by auto
      qed
    qed
    then show ?thesis using eq l by blast
  qed
qed

lemma copy_loop_whole:
  assumes "length src = FRAME_SIZE" "length dst = FRAME_SIZE"
  shows "copy_loop 0 src dst = Inr src"
proof -
  from copy_loop_spec[of 0 src dst] assms obtain dst' where
    r: "copy_loop 0 src dst = Inr dst'" and l: "length dst' = FRAME_SIZE"
    and p: "\<forall>k<FRAME_SIZE. dst' ! k = (if 0 \<le> int k then src ! k else dst ! k)"
    by auto
  have "dst' = src" using l assms p by (intro nth_equalityI) auto
  then show ?thesis using r by simp
qed

subsection \<open>One opcode, and the opcode loops\<close>

lemma nibble_uint: "0 \<le> uint ((op :: u8) AND 0x0F) \<and> uint (op AND 0x0F) \<le> 15"
proof -
  have "op AND 0x0F \<le> 0x0F" by (rule word_and_le1)
  then have "uint (op AND 0x0F) \<le> uint (0x0F :: u8)" by (simp only: word_le_def)
  then show ?thesis by simp
qed

lemma nibble_less: "(op :: u8) AND 0x0F < 16"
proof -
  have "op AND 0x0F \<le> 0x0F" by (rule word_and_le1)
  moreover have "(0x0F :: u8) < 16" by simp
  ultimately show ?thesis by (rule le_less_trans)
qed

lemma repeat_step:
  assumes "0 \<le> pos" "pos \<le> int FRAME_SIZE" "length fb = FRAME_SIZE" "0 \<le> count"
  shows "\<exists>fb' pos'. repeat_loop 0 count c (fb, pos) = Inr (fb', pos')
     \<and> pos' = min (pos + count) (int FRAME_SIZE)
     \<and> length fb' = FRAME_SIZE
     \<and> (\<forall>k<FRAME_SIZE. fb' ! k = (if pos \<le> int k \<and> int k < pos' then c else fb ! k))"
proof -
  from repeat_loop_spec[OF assms(1,3), of 0 count c] obtain fb' pos' where
    r: "repeat_loop 0 count c (fb, pos) = Inr (fb', pos')"
    and e: "pos' = pos + max 0 (min (count - 0) (int FRAME_SIZE - pos))"
    and l: "length fb' = FRAME_SIZE"
    and p: "\<forall>k<FRAME_SIZE. fb' ! k = (if pos \<le> int k \<and> int k < pos' then c else fb ! k)"
    by blast
  have "pos' = min (pos + count) (int FRAME_SIZE)" using e assms(2,4) by (simp add: min_def max_def)
  then show ?thesis using r l p by blast
qed

lemma frame0_step:
  assumes "0 \<le> oi" "oi \<le> int FRAME_SIZE" "length fb = FRAME_SIZE"
  shows "\<exists>fb' oi' c'. frame0_opcode op (fb, oi, c) = Inr (fb', oi', c')
     \<and> 0 \<le> oi' \<and> oi' \<le> int FRAME_SIZE \<and> length fb' = FRAME_SIZE
     \<and> (c < 16 \<and> (\<forall>k<FRAME_SIZE. int k < oi \<longrightarrow> fb ! k < 16)
          \<longrightarrow> c' < 16 \<and> (\<forall>k<FRAME_SIZE. int k < oi' \<longrightarrow> fb' ! k < 16))"
proof -
  have paint: "\<exists>fb' oi'. repeat_loop 0 count c (fb, oi) = Inr (fb', oi')
     \<and> 0 \<le> oi' \<and> oi' \<le> int FRAME_SIZE \<and> length fb' = FRAME_SIZE
     \<and> (c < 16 \<and> (\<forall>k<FRAME_SIZE. int k < oi \<longrightarrow> fb ! k < 16)
          \<longrightarrow> c < 16 \<and> (\<forall>k<FRAME_SIZE. int k < oi' \<longrightarrow> fb' ! k < 16))"
    if "0 \<le> count" for count
  proof -
    from repeat_step[OF assms that, of c] obtain fb' oi' where
      r: "repeat_loop 0 count c (fb, oi) = Inr (fb', oi')"
      and e: "oi' = min (oi + count) (int FRAME_SIZE)"
      and l: "length fb' = FRAME_SIZE"
      and p: "\<forall>k<FRAME_SIZE. fb' ! k = (if oi \<le> int k \<and> int k < oi' then c else fb ! k)"
      by blast
    have "0 \<le> oi'" "oi' \<le> int FRAME_SIZE" using e assms that by auto
    moreover have "\<forall>k<FRAME_SIZE. int k < oi' \<longrightarrow> fb' ! k < 16"
      if "c < 16" "\<forall>k<FRAME_SIZE. int k < oi \<longrightarrow> fb ! k < 16"
      using p that by auto
    ultimately show ?thesis using r l by blast
  qed
  consider (setc) "op AND 0xF0 = 0x00"
    | (short) "op AND 0xF0 \<noteq> 0x00" "op AND 0xF0 = 0x20"
    | (long) "op AND 0xF0 \<noteq> 0x00" "op AND 0xF0 \<noteq> 0x20" "op AND 0xF0 = 0x30"
    | (other) "op AND 0xF0 \<noteq> 0x00" "op AND 0xF0 \<noteq> 0x20" "op AND 0xF0 \<noteq> 0x30"
    by blast
  then show ?thesis
  proof cases
    case setc
    then show ?thesis using assms nibble_less[of op] by (simp add: frame0_opcode_def)
  next
    case short
    have "0 \<le> uint (op AND 0x0F) + 1" using nibble_uint[of op] by simp
    from paint[OF this] short show ?thesis by (auto simp: frame0_opcode_def)
  next
    case long
    have "0 \<le> (uint (op AND 0x0F) + 1) * 16" using nibble_uint[of op] by simp
    from paint[OF this] long show ?thesis by (auto simp: frame0_opcode_def)
  next
    case other
    then show ?thesis using assms by (simp add: frame0_opcode_def)
  qed
qed

lemma frame0_loop_inv:
  assumes "0 \<le> i" "opcode_len \<le> int (length opcodes)"
    "0 \<le> oi" "oi \<le> int FRAME_SIZE" "length fb = FRAME_SIZE"
  shows "\<exists>fb' oi' c'. frame0_loop opcodes opcode_len i (fb, oi, c) = Inr (fb', oi', c')
     \<and> 0 \<le> oi' \<and> oi' \<le> int FRAME_SIZE \<and> length fb' = FRAME_SIZE
     \<and> (c < 16 \<and> (\<forall>k<FRAME_SIZE. int k < oi \<longrightarrow> fb ! k < 16)
          \<longrightarrow> c' < 16 \<and> (\<forall>k<FRAME_SIZE. int k < oi' \<longrightarrow> fb' ! k < 16))"
  using assms
proof (induction opcodes opcode_len i "(fb, oi, c)" arbitrary: fb oi c rule: frame0_loop.induct)
  case (1 opcodes opcode_len i fb oi c)
  note simp = frame0_loop.simps[of opcodes opcode_len i fb oi c]
  show ?case
  proof (cases "i < opcode_len \<and> oi < int FRAME_SIZE")
    case False
    then show ?thesis using "1.prems" by (auto simp: simp)
  next
    case True
    have rd: "array_read opcodes i = Inr (opcodes ! nat i)"
      using True "1.prems" by (simp add: array_read_Inr)
    show ?thesis
    proof (cases "opcodes ! nat i = 0xFF")
      case t: True
      then show ?thesis using True rd "1.prems" by (auto simp: simp)
    next
      case f: False
      from frame0_step[OF "1.prems"(3,4,5), of "opcodes ! nat i" c] obtain fb1 oi1 c1 where
        st: "frame0_opcode (opcodes ! nat i) (fb, oi, c) = Inr (fb1, oi1, c1)"
        and b: "0 \<le> oi1" "oi1 \<le> int FRAME_SIZE" "length fb1 = FRAME_SIZE"
        and px: "c < 16 \<and> (\<forall>k<FRAME_SIZE. int k < oi \<longrightarrow> fb ! k < 16)
          \<longrightarrow> c1 < 16 \<and> (\<forall>k<FRAME_SIZE. int k < oi1 \<longrightarrow> fb1 ! k < 16)"
        by blast
      have i1: "0 \<le> i + 1" using "1.prems"(1) by simp
      from "1.hyps"[OF True rd f st i1 "1.prems"(2) b]
      obtain fb' oi' c' where
        r: "frame0_loop opcodes opcode_len (i + 1) (fb1, oi1, c1) = Inr (fb', oi', c')"
        and b': "0 \<le> oi'" "oi' \<le> int FRAME_SIZE" "length fb' = FRAME_SIZE"
        and px': "c1 < 16 \<and> (\<forall>k<FRAME_SIZE. int k < oi1 \<longrightarrow> fb1 ! k < 16)
          \<longrightarrow> c' < 16 \<and> (\<forall>k<FRAME_SIZE. int k < oi' \<longrightarrow> fb' ! k < 16)"
        by blast
      have "frame0_loop opcodes opcode_len i (fb, oi, c) = Inr (fb', oi', c')"
        using True rd f st r by (simp add: simp)
      then show ?thesis using b' px px' by blast
    qed
  qed
qed


lemma delta_step:
  assumes "0 \<le> pos" "pos < int FRAME_SIZE" "length fb = FRAME_SIZE"
  shows "\<exists>fb' pos' c'. delta_opcode op (fb, pos, c) = Inr (fb', pos', c')
     \<and> 0 \<le> pos' \<and> pos' \<le> int FRAME_SIZE + 1023 \<and> length fb' = FRAME_SIZE
     \<and> (c < 16 \<and> (\<forall>k<FRAME_SIZE. fb ! k < 16)
          \<longrightarrow> c' < 16 \<and> (\<forall>k<FRAME_SIZE. fb' ! k < 16))"
proof -
  have le: "pos \<le> int FRAME_SIZE" using assms(2) by simp
  have paint: "\<exists>fb' pos'. repeat_loop 0 count c (fb, pos) = Inr (fb', pos')
     \<and> 0 \<le> pos' \<and> pos' \<le> int FRAME_SIZE + 1023 \<and> length fb' = FRAME_SIZE
     \<and> (c < 16 \<and> (\<forall>k<FRAME_SIZE. fb ! k < 16)
          \<longrightarrow> c < 16 \<and> (\<forall>k<FRAME_SIZE. fb' ! k < 16))"
    if "0 \<le> count" for count
  proof -
    from repeat_step[OF assms(1) le assms(3) that, of c] obtain fb' pos' where
      r: "repeat_loop 0 count c (fb, pos) = Inr (fb', pos')"
      and e: "pos' = min (pos + count) (int FRAME_SIZE)"
      and l: "length fb' = FRAME_SIZE"
      and p: "\<forall>k<FRAME_SIZE. fb' ! k = (if pos \<le> int k \<and> int k < pos' then c else fb ! k)"
      by blast
    have "0 \<le> pos'" "pos' \<le> int FRAME_SIZE + 1023" using e assms that by auto
    moreover have "\<forall>k<FRAME_SIZE. fb' ! k < 16"
      if "c < 16" "\<forall>k<FRAME_SIZE. fb ! k < 16"
      using p that by auto
    ultimately show ?thesis using r l by blast
  qed
  note n = nibble_uint[of op]
  consider (setc) "op AND 0xF0 = 0x00"
    | (skip) "op AND 0xF0 \<noteq> 0x00" "op AND 0xF0 = 0x10"
    | (short) "op AND 0xF0 \<noteq> 0x00" "op AND 0xF0 \<noteq> 0x10" "op AND 0xF0 = 0x20"
    | (skipl) "op AND 0xF0 \<noteq> 0x00" "op AND 0xF0 \<noteq> 0x10" "op AND 0xF0 \<noteq> 0x20"
        "op AND 0xF0 = 0x30"
    | (long) "op AND 0xF0 \<noteq> 0x00" "op AND 0xF0 \<noteq> 0x10" "op AND 0xF0 \<noteq> 0x20"
        "op AND 0xF0 \<noteq> 0x30" "op AND 0xF0 = 0x40"
    | (skipv) "op AND 0xF0 \<noteq> 0x00" "op AND 0xF0 \<noteq> 0x10" "op AND 0xF0 \<noteq> 0x20"
        "op AND 0xF0 \<noteq> 0x30" "op AND 0xF0 \<noteq> 0x40" "op AND 0xF0 = 0x50"
    | (other) "op AND 0xF0 \<noteq> 0x00" "op AND 0xF0 \<noteq> 0x10" "op AND 0xF0 \<noteq> 0x20"
        "op AND 0xF0 \<noteq> 0x30" "op AND 0xF0 \<noteq> 0x40" "op AND 0xF0 \<noteq> 0x50"
    by blast
  then show ?thesis
  proof cases
    case setc
    then show ?thesis using assms nibble_less[of op] by (simp add: delta_opcode_def)
  next
    case skip
    then show ?thesis using assms n by (simp add: delta_opcode_def)
  next
    case short
    have "0 \<le> uint (op AND 0x0F) + 1" using n by simp
    from paint[OF this] short show ?thesis by (auto simp: delta_opcode_def)
  next
    case skipl
    then show ?thesis using assms n by (simp add: delta_opcode_def)
  next
    case long
    have "0 \<le> (uint (op AND 0x0F) + 1) * 16" using n by simp
    from paint[OF this] long show ?thesis by (auto simp: delta_opcode_def)
  next
    case skipv
    then show ?thesis using assms n by (simp add: delta_opcode_def)
  next
    case other
    then show ?thesis using assms by (simp add: delta_opcode_def)
  qed
qed

lemma delta_loop_inv:
  assumes "0 \<le> i" "opcode_len \<le> int (length opcodes)"
    "0 \<le> pos" "pos \<le> int FRAME_SIZE + 1023" "length fb = FRAME_SIZE"
  shows "\<exists>fb' pos' c'. delta_loop opcodes opcode_len i (fb, pos, c) = Inr (fb', pos', c')
     \<and> 0 \<le> pos' \<and> pos' \<le> int FRAME_SIZE + 1023 \<and> length fb' = FRAME_SIZE
     \<and> (c < 16 \<and> (\<forall>k<FRAME_SIZE. fb ! k < 16)
          \<longrightarrow> c' < 16 \<and> (\<forall>k<FRAME_SIZE. fb' ! k < 16))"
  using assms
proof (induction opcodes opcode_len i "(fb, pos, c)" arbitrary: fb pos c rule: delta_loop.induct)
  case (1 opcodes opcode_len i fb pos c)
  note simp = delta_loop.simps[of opcodes opcode_len i fb pos c]
  show ?case
  proof (cases "i < opcode_len \<and> pos < int FRAME_SIZE")
    case False
    then show ?thesis using "1.prems" by (auto simp: simp)
  next
    case True
    have rd: "array_read opcodes i = Inr (opcodes ! nat i)"
      using True "1.prems" by (simp add: array_read_Inr)
    show ?thesis
    proof (cases "opcodes ! nat i = 0xFF")
      case t: True
      then show ?thesis using True rd "1.prems" by (auto simp: simp)
    next
      case f: False
      have lt: "pos < int FRAME_SIZE" using True by simp
      from delta_step[OF "1.prems"(3) lt "1.prems"(5), of "opcodes ! nat i" c]
      obtain fb1 pos1 c1 where
        st: "delta_opcode (opcodes ! nat i) (fb, pos, c) = Inr (fb1, pos1, c1)"
        and b: "0 \<le> pos1" "pos1 \<le> int FRAME_SIZE + 1023" "length fb1 = FRAME_SIZE"
        and px: "c < 16 \<and> (\<forall>k<FRAME_SIZE. fb ! k < 16)
          \<longrightarrow> c1 < 16 \<and> (\<forall>k<FRAME_SIZE. fb1 ! k < 16)"
        by blast
      have i1: "0 \<le> i + 1" using "1.prems"(1) by simp
      from "1.hyps"[OF True rd f st i1 "1.prems"(2) b]
      obtain fb' pos' c' where
        r: "delta_loop opcodes opcode_len (i + 1) (fb1, pos1, c1) = Inr (fb', pos', c')"
        and b': "0 \<le> pos'" "pos' \<le> int FRAME_SIZE + 1023" "length fb' = FRAME_SIZE"
        and px': "c1 < 16 \<and> (\<forall>k<FRAME_SIZE. fb1 ! k < 16)
          \<longrightarrow> c' < 16 \<and> (\<forall>k<FRAME_SIZE. fb' ! k < 16)"
        by blast
      have "delta_loop opcodes opcode_len i (fb, pos, c) = Inr (fb', pos', c')"
        using True rd f st r by (simp add: simp)
      then show ?thesis using b' px px' by blast
    qed
  qed
qed

lemma zero_frame_length: "length zero_frame = FRAME_SIZE"
  by (simp add: zero_frame_def)

lemma all_set_nth: "length xs = n \<Longrightarrow> (\<forall>p\<in>set xs. P p) \<longleftrightarrow> (\<forall>k<n. P (xs ! k))"
  by (auto simp: all_set_conv_all_nth)

lemma decompress_frame_cursor_inv:
  assumes "length frame_buffer = FRAME_SIZE" "length prev_frame_buffer = FRAME_SIZE"
    "opcode_len \<le> int (length opcodes)"
  shows "\<exists>fb' pos c. decompress_frame_cursor frame_index opcodes opcode_len
            (frame_buffer, prev_frame_buffer) = Inr (fb', pos, c)
     \<and> length fb' = FRAME_SIZE \<and> 0 \<le> pos \<and> pos \<le> int FRAME_SIZE + 1023
     \<and> (frame_index = 0 \<longrightarrow> pos = int FRAME_SIZE)
     \<and> ((frame_index \<noteq> 0 \<longrightarrow> (\<forall>k<FRAME_SIZE. prev_frame_buffer ! k < 16))
          \<longrightarrow> (\<forall>k<FRAME_SIZE. fb' ! k < 16))"
proof (cases "frame_index = 0")
  case True
  from frame0_loop_inv[of 0 opcode_len opcodes 0 frame_buffer 0] assms obtain fb1 oi1 c1 where
    r: "frame0_loop opcodes opcode_len 0 (frame_buffer, 0, 0) = Inr (fb1, oi1, c1)"
    and b: "0 \<le> oi1" "oi1 \<le> int FRAME_SIZE" "length fb1 = FRAME_SIZE"
    and px: "\<forall>k<FRAME_SIZE. int k < oi1 \<longrightarrow> fb1 ! k < 16"
    by auto
  from fill_loop_spec[OF b(1,3)] obtain fb2 where
    f: "fill_loop (fb1, oi1) = Inr (fb2, max oi1 (int FRAME_SIZE))"
    and l2: "length fb2 = FRAME_SIZE"
    and p2: "\<forall>k<FRAME_SIZE. fb2 ! k = (if oi1 \<le> int k then 0 else fb1 ! k)"
    by blast
  have m: "max oi1 (int FRAME_SIZE) = int FRAME_SIZE" using b(2) by simp
  have "decompress_frame_cursor frame_index opcodes opcode_len (frame_buffer, prev_frame_buffer)
      = Inr (fb2, int FRAME_SIZE, c1)"
    using True r f m by (simp add: decompress_frame_cursor_def)
  moreover have "\<forall>k<FRAME_SIZE. fb2 ! k < 16" using p2 px by auto
  ultimately show ?thesis using l2 True by simp
next
  case False
  have c: "copy_loop 0 prev_frame_buffer frame_buffer = Inr prev_frame_buffer"
    using copy_loop_whole[OF assms(2,1)] .
  from delta_loop_inv[of 0 opcode_len opcodes 0 prev_frame_buffer 0] assms obtain fb1 pos1 c1 where
    r: "delta_loop opcodes opcode_len 0 (prev_frame_buffer, 0, 0) = Inr (fb1, pos1, c1)"
    and b: "0 \<le> pos1" "pos1 \<le> int FRAME_SIZE + 1023" "length fb1 = FRAME_SIZE"
    and px: "(\<forall>k<FRAME_SIZE. prev_frame_buffer ! k < 16) \<longrightarrow> (\<forall>k<FRAME_SIZE. fb1 ! k < 16)"
    by auto
  have "decompress_frame_cursor frame_index opcodes opcode_len (frame_buffer, prev_frame_buffer)
      = Inr (fb1, pos1, c1)"
    using False c r by (simp add: decompress_frame_cursor_def)
  then show ?thesis using b px False by simp
qed

subsection \<open>The two worked segments\<close>

lemma frame0_loop_example:
  assumes "length fb = FRAME_SIZE"
  shows "frame0_loop (0x05 # 0x23 # rest) 2 0 (fb, 0, 0) = Inr (fb[0 := 5, 1 := 5, 2 := 5, 3 := 5], 4, 5)"
  using assms
  by (simp add: frame0_loop.simps array_read_def frame0_opcode_def repeat_loop.simps array_write_def FRAME_SIZE_def)

lemma delta_loop_example:
  assumes "length fb = FRAME_SIZE"
  shows "delta_loop (0x05 # 0x12 # 0x22 # rest) 3 0 (fb, 0, 0) = Inr (fb[3 := 5, 4 := 5, 5 := 5], 6, 5)"
  using assms
  by (simp add: delta_loop.simps array_read_def delta_opcode_def repeat_loop.simps array_write_def FRAME_SIZE_def)

lemma delta_loop_overshoot:
  "delta_loop [0x10, 0x5F, 0x5F, 0x5F, 0x5F] 5 0 (fb, 0, 0) = Inr (fb, 4097, 0)"
  by (simp add: delta_loop.simps array_read_def delta_opcode_def FRAME_SIZE_def)

text \<open>
  Claim C6. \<open>decompress_frame\<close> with frame index 0 on the segment [0x05, 0x23] (whatever
  follows it in memory) leaves a frame whose first 4 pixels are 5 and whose other 4092
  pixels are 0, whatever the two buffers held before; the frame is also saved as the
  previous frame.
\<close>

theorem baseline_set_color_repeat:
  assumes "length frame_buffer = FRAME_SIZE" "length prev_frame_buffer = FRAME_SIZE"
  shows "decompress_frame 0 (0x05 # 0x23 # rest) 2 (frame_buffer, prev_frame_buffer)
         = Inr (replicate 4 5 @ replicate 4092 0, replicate 4 5 @ replicate 4092 0)"
proof -
  let ?fb1 = "frame_buffer[0 := 5, 1 := 5, 2 := 5, 3 := 5]"
  have l1: "length ?fb1 = FRAME_SIZE" using assms(1) by simp
  from fill_loop_spec[of 4 ?fb1] l1 obtain fb2 where
    f: "fill_loop (?fb1, 4) = Inr (fb2, max 4 (int FRAME_SIZE))"
    and l2: "length fb2 = FRAME_SIZE"
    and p2: "\<forall>k<FRAME_SIZE. fb2 ! k = (if 4 \<le> int k then 0 else ?fb1 ! k)"
    by auto
  have "fb2 = replicate 4 5 @ replicate 4092 0"
  proof (rule nth_equalityI)
    show "length fb2 = length (replicate 4 5 @ replicate 4092 (0::u8))"
      using l2 by (simp add: FRAME_SIZE_def)
  next
    fix k assume "k < length fb2"
    then have k: "k < FRAME_SIZE" using l2 by simp
    then have "k < length frame_buffer" using assms(1) by simp
    show "fb2 ! k = (replicate 4 5 @ replicate 4092 0) ! k"
    proof (cases "k < 4")
      case True
      then consider "k = 0" | "k = 1" | "k = 2" | "k = 3" by linarith
      then show ?thesis using p2 k assms(1)
        by cases (simp_all add: nth_append FRAME_SIZE_def)
    next
      case False
      then show ?thesis using p2 k by (simp add: nth_append FRAME_SIZE_def)
    qed
  qed
  moreover have "decompress_frame_cursor 0 (0x05 # 0x23 # rest) 2 (frame_buffer, prev_frame_buffer)
      = Inr (fb2, max 4 (int FRAME_SIZE), 5)"
    using frame0_loop_example[OF assms(1), of rest] f by (simp add: decompress_frame_cursor_def)
  moreover have "copy_loop 0 fb2 prev_frame_buffer = Inr fb2"
    using copy_loop_whole[OF l2 assms(2)] .
  ultimately show ?thesis by (simp add: decompress_frame_def)
qed

theorem baseline_set_color_repeat_witness:
  "length zero_frame = FRAME_SIZE \<and>
   decompress_frame 0 [0x05, 0x23] 2 (zero_frame, zero_frame)
     = Inr (replicate 4 5 @ replicate 4092 0, replicate 4 5 @ replicate 4092 0)"
  using baseline_set_color_repeat[OF zero_frame_length zero_frame_length, of "[]"] zero_frame_length by simp

text \<open>
  Claim C7. \<open>decompress_frame\<close> with a nonzero frame index on the segment
  [0x05, 0x12, 0x22] yields the previous frame with the pixels 3, 4 and 5 set to 5, and
  nothing else changed.
\<close>

theorem delta_skip_repeat:
  assumes "frame_index \<noteq> 0"
    and "length frame_buffer = FRAME_SIZE" "length prev_frame_buffer = FRAME_SIZE"
  shows "decompress_frame frame_index (0x05 # 0x12 # 0x22 # rest) 3
           (frame_buffer, prev_frame_buffer)
         = Inr (prev_frame_buffer[3 := 5, 4 := 5, 5 := 5],
                prev_frame_buffer[3 := 5, 4 := 5, 5 := 5])"
proof -
  let ?fb = "prev_frame_buffer[3 := 5, 4 := 5, 5 := 5]"
  have l: "length ?fb = FRAME_SIZE" using assms(3) by simp
  have c: "copy_loop 0 prev_frame_buffer frame_buffer = Inr prev_frame_buffer"
    using copy_loop_whole[OF assms(3,2)] .
  have "decompress_frame_cursor frame_index (0x05 # 0x12 # 0x22 # rest) 3
          (frame_buffer, prev_frame_buffer) = Inr (?fb, 6, 5)"
    using assms(1) c delta_loop_example[OF assms(3), of rest]
    by (simp add: decompress_frame_cursor_def)
  moreover have "copy_loop 0 ?fb prev_frame_buffer = Inr ?fb"
    using copy_loop_whole[OF l assms(3)] .
  ultimately show ?thesis by (simp add: decompress_frame_def)
qed

theorem delta_skip_repeat_witness:
  "(1::int) \<noteq> 0 \<and> length zero_frame = FRAME_SIZE \<and>
   decompress_frame 1 [0x05, 0x12, 0x22] 3 (zero_frame, zero_frame)
     = Inr (zero_frame[3 := 5, 4 := 5, 5 := 5], zero_frame[3 := 5, 4 := 5, 5 := 5])"
  using delta_skip_repeat[of 1, OF _ zero_frame_length zero_frame_length, of "[]"] zero_frame_length
  by simp

subsection \<open>Pixel range and buffer bounds\<close>

text \<open>
  Claim C9. After \<open>decompress_frame\<close> every pixel of the frame buffer is below 16, for
  every frame index and every segment, provided the previous frame's pixels are below
  16 when the frame is a delta; frame 0 needs no such proviso. The call returns
  normally: no access leaves an array.
\<close>

theorem decompress_frame_pixels_in_range:
  assumes "length frame_buffer = FRAME_SIZE" "length prev_frame_buffer = FRAME_SIZE"
    and "opcode_len \<le> int (length opcodes)"
    and "frame_index \<noteq> 0 \<longrightarrow> (\<forall>p \<in> set prev_frame_buffer. p < 16)"
  shows "\<exists>fb'. decompress_frame frame_index opcodes opcode_len (frame_buffer, prev_frame_buffer)
            = Inr (fb', fb')
          \<and> length fb' = FRAME_SIZE \<and> (\<forall>p \<in> set fb'. p < 16)"
proof -
  have pre: "frame_index \<noteq> 0 \<longrightarrow> (\<forall>k<FRAME_SIZE. prev_frame_buffer ! k < 16)"
    using assms(4) all_set_nth[OF assms(2)] by simp
  from decompress_frame_cursor_inv[OF assms(1,2,3), of frame_index] pre obtain fb' pos c where
    r: "decompress_frame_cursor frame_index opcodes opcode_len
            (frame_buffer, prev_frame_buffer) = Inr (fb', pos, c)"
    and l: "length fb' = FRAME_SIZE" and px: "\<forall>k<FRAME_SIZE. fb' ! k < 16"
    by blast
  have "copy_loop 0 fb' prev_frame_buffer = Inr fb'" using copy_loop_whole[OF l assms(2)] .
  then have "decompress_frame frame_index opcodes opcode_len (frame_buffer, prev_frame_buffer)
            = Inr (fb', fb')"
    using r by (simp add: decompress_frame_def)
  moreover have "\<forall>p \<in> set fb'. p < 16" using px all_set_nth[OF l] by simp
  ultimately show ?thesis using l by blast
qed

theorem decompress_frame_pixels_in_range_witness:
  "length zero_frame = FRAME_SIZE \<and> (2::int) \<le> int (length [0x0C, 0x4F :: u8])
   \<and> list_all (\<lambda>p. p < 16) zero_frame
   \<and> (\<exists>fb'. decompress_frame 3 [0x0C, 0x4F] 2 (zero_frame, zero_frame) = Inr (fb', fb')
         \<and> length fb' = FRAME_SIZE \<and> list_all (\<lambda>p. p < 16) fb')"
proof -
  have z: "\<forall>p \<in> set zero_frame. p < 16" by (simp add: zero_frame_def)
  then have h: "(3::int) \<noteq> 0 \<longrightarrow> (\<forall>p \<in> set zero_frame. p < 16)" by simp
  have l: "(2::int) \<le> int (length [0x0C, 0x4F :: u8])" by simp
  from decompress_frame_pixels_in_range[OF zero_frame_length zero_frame_length l h]
  show ?thesis using z l zero_frame_length by (simp add: list_all_iff)
qed

text \<open>
  Claim C1, as the code has it. For every segment and every previous frame no write of
  \<open>decompress_frame\<close> leaves the frame buffer (the call returns normally, and a write at
  an index above 4095 would be \<open>WritePastEnd\<close>). A repeat opcode clamps both its writes
  and the cursor at 4096, so the cursor of frame 0 stays within 0..4096. A skip opcode
  of a delta frame adds its count to the cursor without clamping: the cursor can pass
  4096, by at most 1023, and the loop then ends.
\<close>

theorem decompress_frame_writes_in_bounds:
  assumes "length frame_buffer = FRAME_SIZE" "length prev_frame_buffer = FRAME_SIZE"
    and "opcode_len \<le> int (length opcodes)"
  shows "(\<exists>bufs'. decompress_frame frame_index opcodes opcode_len
                     (frame_buffer, prev_frame_buffer) = Inr bufs')
       \<and> (\<exists>fb' output_index c.
             frame0_loop opcodes opcode_len 0 (frame_buffer, 0, 0) = Inr (fb', output_index, c)
             \<and> 0 \<le> output_index \<and> output_index \<le> int FRAME_SIZE)
       \<and> (\<exists>fb' pos c.
             delta_loop opcodes opcode_len 0 (prev_frame_buffer, 0, 0) = Inr (fb', pos, c)
             \<and> 0 \<le> pos \<and> pos \<le> int FRAME_SIZE + 1023)
       \<and> (\<forall>count pos c. 0 \<le> count \<and> 0 \<le> pos \<and> pos \<le> int FRAME_SIZE \<longrightarrow>
             (\<exists>fb'. repeat_loop 0 count c (frame_buffer, pos)
                      = Inr (fb', min (pos + count) (int FRAME_SIZE))))"
proof (intro conjI allI impI)
  from decompress_frame_cursor_inv[OF assms, of frame_index] obtain fb' pos c where
    r: "decompress_frame_cursor frame_index opcodes opcode_len
          (frame_buffer, prev_frame_buffer) = Inr (fb', pos, c)"
    and l: "length fb' = FRAME_SIZE"
    by blast
  have "copy_loop 0 fb' prev_frame_buffer = Inr fb'" using copy_loop_whole[OF l assms(2)] .
  then show "\<exists>bufs'. decompress_frame frame_index opcodes opcode_len
                     (frame_buffer, prev_frame_buffer) = Inr bufs'"
    using r by (simp add: decompress_frame_def)
next
  from frame0_loop_inv[of 0 opcode_len opcodes 0 frame_buffer 0] assms
  show "\<exists>fb' output_index c.
          frame0_loop opcodes opcode_len 0 (frame_buffer, 0, 0) = Inr (fb', output_index, c)
          \<and> 0 \<le> output_index \<and> output_index \<le> int FRAME_SIZE"
    by auto
next
  from delta_loop_inv[of 0 opcode_len opcodes 0 prev_frame_buffer 0] assms
  show "\<exists>fb' pos c.
          delta_loop opcodes opcode_len 0 (prev_frame_buffer, 0, 0) = Inr (fb', pos, c)
          \<and> 0 \<le> pos \<and> pos \<le> int FRAME_SIZE + 1023"
    by auto
next
  fix count pos :: int and c :: u8
  assume "0 \<le> count \<and> 0 \<le> pos \<and> pos \<le> int FRAME_SIZE"
  then show "\<exists>fb'. repeat_loop 0 count c (frame_buffer, pos)
                 = Inr (fb', min (pos + count) (int FRAME_SIZE))"
    using repeat_step[of pos frame_buffer count c] assms(1) by auto
qed

theorem decompress_frame_writes_in_bounds_witness:
  "length zero_frame = FRAME_SIZE
   \<and> (5::int) \<le> int (length [0x10, 0x5F, 0x5F, 0x5F, 0x5F :: u8])
   \<and> (\<exists>bufs'. decompress_frame 1 [0x10, 0x5F, 0x5F, 0x5F, 0x5F] 5 (zero_frame, zero_frame)
                 = Inr bufs')
   \<and> (\<exists>fb' pos c.
         delta_loop [0x10, 0x5F, 0x5F, 0x5F, 0x5F] 5 0 (zero_frame, 0, 0) = Inr (fb', pos, c)
         \<and> 0 \<le> pos \<and> pos \<le> int FRAME_SIZE + 1023)
   \<and> (\<exists>fb'. repeat_loop 0 300 5 (zero_frame, 4000) = Inr (fb', 4096))"
proof -
  have l: "(5::int) \<le> int (length [0x10, 0x5F, 0x5F, 0x5F, 0x5F :: u8])" by simp
  from decompress_frame_writes_in_bounds[OF zero_frame_length zero_frame_length l, of 1]
  have a: "\<exists>bufs'. decompress_frame 1 [0x10, 0x5F, 0x5F, 0x5F, 0x5F] 5 (zero_frame, zero_frame)
                 = Inr bufs'"
    and b: "\<exists>fb' pos c.
         delta_loop [0x10, 0x5F, 0x5F, 0x5F, 0x5F] 5 0 (zero_frame, 0, 0) = Inr (fb', pos, c)
         \<and> 0 \<le> pos \<and> pos \<le> int FRAME_SIZE + 1023"
    and c: "\<forall>count pos c. 0 \<le> count \<and> 0 \<le> pos \<and> pos \<le> int FRAME_SIZE \<longrightarrow>
             (\<exists>fb'. repeat_loop 0 count c (zero_frame, pos)
                      = Inr (fb', min (pos + count) (int FRAME_SIZE)))"
    by blast+
  have "\<exists>fb'. repeat_loop 0 300 5 (zero_frame, 4000) = Inr (fb', 4096)"
    using c[rule_format, of 300 4000 5] by (simp add: FRAME_SIZE_def)
  then show ?thesis using a b l zero_frame_length by blast
qed

text \<open>
  The claim as the specification words it fails on the skip opcodes: after a skip of 1
  and four skips of 1024 the cursor of a delta frame is 4097.
\<close>

theorem delta_skip_cursor_past_frame:
  "decompress_frame_cursor 1 [0x10, 0x5F, 0x5F, 0x5F, 0x5F] 5 (zero_frame, zero_frame)
     = Inr (zero_frame, 4097, 0)"
  using copy_loop_whole[OF zero_frame_length zero_frame_length]
    delta_loop_overshoot[of zero_frame]
  by (simp add: decompress_frame_cursor_def)

section \<open>Properties of the Huffman decoder\<close>

subsection \<open>Bits, accumulated values and table scans\<close>

lemma read_bit_error:
  "bitstream_read_bit bs = Inl e \<Longrightarrow> e = ReadPastEnd"
  by (auto simp: bitstream_read_bit_def array_read_def split: if_splits sum.splits)

lemma shift_in_uint:
  assumes "b = 0 \<or> b = 1" "2 * uint w + uint b < 65536"
  shows "uint (shift_in w b) = 2 * uint w + uint b"
proof -
  from assms(1) show ?thesis
  proof
    assume b: "b = 0"
    have "uint (2 * w) = 2 * uint w" using assms(2) b
      by (simp add: uint_word_ariths)
    then show ?thesis using b by (simp add: shift_in_def push_bit_eq_mult mult.commute)
  next
    assume b: "b = 1"
    have "uint (2 * w + 1) = 2 * uint w + 1" using assms(2) b
      by (simp add: uint_word_ariths)
    moreover have "push_bit 1 w OR 1 = 2 * w + 1"
      by (simp add: or_one_eq push_bit_eq_mult mult.commute)
    ultimately show ?thesis using b by (simp add: shift_in_def)
  qed
qed

lemma int_div_less:
  assumes "0 < d" "c < m * d"
  shows "(c::int) div d < m"
proof (rule ccontr)
  assume "\<not> c div d < m"
  then have "m \<le> c div d" by simp
  then have "m * d \<le> c div d * d" using assms(1) by (simp add: mult_right_mono)
  moreover have "c div d * d \<le> c"
    using pos_mod_sign[OF assms(1), of c] div_mult_mod_eq[of c d] by linarith
  ultimately show False using assms(2) by linarith
qed

lemma length_msb_bits: "length (msb_bits n c) = n"
  by (induction n arbitrary: c) auto

lemma take_msb_bits: "k \<le> n \<Longrightarrow> take k (msb_bits n c) = msb_bits k (c div 2 ^ (n - k))"
proof (induction n arbitrary: c)
  case 0
  then show ?case by simp
next
  case (Suc n)
  show ?case
  proof (cases "k = Suc n")
    case True
    then show ?thesis using length_msb_bits[of "Suc n" c] by simp
  next
    case False
    then have kn: "k \<le> n" using Suc.prems by simp
    have "take k (msb_bits (Suc n) c) = take k (msb_bits n (c div 2))"
      using kn by (simp add: length_msb_bits)
    also have "\<dots> = msb_bits k (c div 2 div 2 ^ (n - k))" using Suc.IH[OF kn] .
    also have "c div 2 div 2 ^ (n - k) = c div 2 ^ (Suc n - k)"
      using kn by (simp add: Suc_diff_le zdiv_zmult2_eq)
    finally show ?thesis .
  qed
qed

lemma foldl_msb_bits:
  "0 \<le> c \<Longrightarrow> uint w * 2 ^ n + c mod 2 ^ n < 65536 \<Longrightarrow>
   uint (foldl shift_in w (msb_bits n c)) = uint w * 2 ^ n + c mod 2 ^ n"
proof (induction n arbitrary: c)
  case 0
  then show ?case by simp
next
  case (Suc n)
  let ?b = "(if odd c then 1 else 0) :: u32"
  let ?x = "foldl shift_in w (msb_bits n (c div 2))"
  have split: "c mod 2 ^ Suc n = 2 * (c div 2 mod 2 ^ n) + c mod 2"
    by (simp add: zmod_zmult2_eq)
  have ub: "uint ?b = c mod 2" by (simp add: odd_iff_mod_2_eq_one)
  have c2: "0 \<le> c div 2" using Suc.prems(1) by simp
  have "0 \<le> c mod 2" by simp
  then have bound: "uint w * 2 ^ n + c div 2 mod 2 ^ n < 65536"
    using Suc.prems(2) split by simp
  have x: "uint ?x = uint w * 2 ^ n + c div 2 mod 2 ^ n" using Suc.IH[OF c2 bound] .
  have "2 * uint ?x + uint ?b = uint w * 2 ^ Suc n + c mod 2 ^ Suc n"
    using x ub split by simp
  moreover have "uint (shift_in ?x ?b) = 2 * uint ?x + uint ?b"
    by (rule shift_in_uint) (use calculation Suc.prems(2) in auto)
  ultimately show ?case by simp
qed

lemma accumulate_prefix:
  assumes "0 \<le> c" "c < 2 ^ n" "n \<le> 16" "k \<le> n"
  shows "uint (accumulate (take k (msb_bits n c))) = c div 2 ^ (n - k)"
    and "c div 2 ^ (n - k) < 2 ^ k"
proof -
  let ?d = "c div 2 ^ (n - k)"
  have d0: "0 \<le> ?d" using assms(1) by (simp add: pos_imp_zdiv_nonneg_iff)
  have "c < 2 ^ k * 2 ^ (n - k)" using assms(2,4) by (simp flip: power_add)
  then have dk: "?d < 2 ^ k" by (intro int_div_less) auto
  have "(2::int) ^ k \<le> 2 ^ 16" using assms(3,4) by (intro power_increasing) auto
  then have "?d mod 2 ^ k < 65536" using d0 dk by simp
  then have "uint (foldl shift_in 0 (msb_bits k ?d)) = ?d mod 2 ^ k"
    using foldl_msb_bits[OF d0, of 0 k] by simp
  then show "uint (accumulate (take k (msb_bits n c))) = c div 2 ^ (n - k)"
    using d0 dk take_msb_bits[OF assms(4), of c] by (simp add: accumulate_def)
  show "?d < 2 ^ k" by (rule dk)
qed

lemma table_scan_Some:
  "table_scan tbl len cc = Some op \<Longrightarrow>
   \<exists>e \<in> set tbl. code_len e = len \<and> code e = uint cc \<and> opcode e = op"
  by (induction tbl) (auto split: if_splits)

lemma table_scan_hit:
  "e \<in> set tbl \<Longrightarrow> code_len e = len \<Longrightarrow> code e = uint cc \<Longrightarrow>
   \<exists>op. table_scan tbl len cc = Some op"
  by (induction tbl) auto

lemma read_bits_Suc:
  assumes "read_bits (Suc n) bs = Inr (bits, bs')"
  obtains b bs1 bits1 where "bitstream_read_bit bs = Inr (b, bs1)"
    "read_bits n bs1 = Inr (bits1, bs')" "bits = b # bits1"
  using assms by (auto split: sum.splits)

lemma decode_loop_match:
  "read_bits n bs = Inr (bits, bs') \<Longrightarrow> 1 \<le> n \<Longrightarrow> len + int n \<le> 16 \<Longrightarrow>
   (\<forall>k. 1 \<le> k \<and> k < n \<longrightarrow>
        table_scan tbl (len + int k) (foldl shift_in cc (take k bits)) = None) \<Longrightarrow>
   table_scan tbl (len + int n) (foldl shift_in cc bits) = Some op \<Longrightarrow>
   decode_loop tbl cc len bs = Inr (op, bs')"
proof (induction n arbitrary: bs bits cc len)
  case 0
  then show ?case by simp
next
  case (Suc n)
  from Suc.prems(1) obtain b bs1 bits1 where
    rb: "bitstream_read_bit bs = Inr (b, bs1)"
    and rest: "read_bits n bs1 = Inr (bits1, bs')" and bits: "bits = b # bits1"
    by (rule read_bits_Suc)
  have len: "len < 16" using Suc.prems(3) by simp
  show ?case
  proof (cases "n = 0")
    case True
    then have "bits1 = []" "bs' = bs1" using rest by simp_all
    then have "table_scan tbl (len + 1) (shift_in cc b) = Some op"
      using Suc.prems(5) bits True by simp
    then show ?thesis using len rb \<open>bs' = bs1\<close>
      by (simp add: decode_loop.simps[of tbl cc len bs])
  next
    case False
    then have n1: "1 \<le> n" by simp
    have "table_scan tbl (len + int 1) (foldl shift_in cc (take 1 bits)) = None"
      using Suc.prems(4) False by (intro Suc.prems(4)[rule_format]) simp
    then have none: "table_scan tbl (len + 1) (shift_in cc b) = None"
      using bits by simp
    have step: "decode_loop tbl cc len bs = decode_loop tbl (shift_in cc b) (len + 1) bs1"
      using len rb none by (simp add: decode_loop.simps[of tbl cc len bs])
    have bound: "len + 1 + int n \<le> 16" using Suc.prems(3) by simp
    have before: "\<forall>k. 1 \<le> k \<and> k < n \<longrightarrow>
        table_scan tbl (len + 1 + int k) (foldl shift_in (shift_in cc b) (take k bits1)) = None"
    proof (intro allI impI)
      fix k assume k: "1 \<le> k \<and> k < n"
      then have "table_scan tbl (len + int (Suc k)) (foldl shift_in cc (take (Suc k) bits)) = None"
        by (intro Suc.prems(4)[rule_format]) simp
      then show "table_scan tbl (len + 1 + int k)
                   (foldl shift_in (shift_in cc b) (take k bits1)) = None"
        using bits by (simp add: add.commute add.left_commute)
    qed
    have last: "table_scan tbl (len + 1 + int n) (foldl shift_in (shift_in cc b) bits1) = Some op"
      using Suc.prems(5) bits by (simp add: add.commute add.left_commute)
    from Suc.IH[OF rest n1 bound before last] step show ?thesis by simp
  qed
qed

lemma decode_loop_miss:
  "read_bits n bs = Inr (bits, bs') \<Longrightarrow> len + int n = 16 \<Longrightarrow>
   (\<forall>k. 1 \<le> k \<and> k \<le> n \<longrightarrow>
        table_scan tbl (len + int k) (foldl shift_in cc (take k bits)) = None) \<Longrightarrow>
   decode_loop tbl cc len bs = Inr (0xFF, bs')"
proof (induction n arbitrary: bs bits cc len)
  case 0
  then show ?case by (simp add: decode_loop.simps)
next
  case (Suc n)
  from Suc.prems(1) obtain b bs1 bits1 where
    rb: "bitstream_read_bit bs = Inr (b, bs1)"
    and rest: "read_bits n bs1 = Inr (bits1, bs')" and bits: "bits = b # bits1"
    by (rule read_bits_Suc)
  have len: "len < 16" using Suc.prems(2) by simp
  have "table_scan tbl (len + int 1) (foldl shift_in cc (take 1 bits)) = None"
    by (intro Suc.prems(3)[rule_format]) simp
  then have none: "table_scan tbl (len + 1) (shift_in cc b) = None"
    using bits by simp
  have step: "decode_loop tbl cc len bs = decode_loop tbl (shift_in cc b) (len + 1) bs1"
    using len rb none by (simp add: decode_loop.simps[of tbl cc len bs])
  have bound: "len + 1 + int n = 16" using Suc.prems(2) by simp
  have all: "\<forall>k. 1 \<le> k \<and> k \<le> n \<longrightarrow>
      table_scan tbl (len + 1 + int k) (foldl shift_in (shift_in cc b) (take k bits1)) = None"
  proof (intro allI impI)
    fix k assume k: "1 \<le> k \<and> k \<le> n"
    then have "table_scan tbl (len + int (Suc k)) (foldl shift_in cc (take (Suc k) bits)) = None"
      by (intro Suc.prems(3)[rule_format]) simp
    then show "table_scan tbl (len + 1 + int k)
                 (foldl shift_in (shift_in cc b) (take k bits1)) = None"
      using bits by (simp add: add.commute add.left_commute)
  qed
  from Suc.IH[OF rest bound all] step show ?case by simp
qed

lemma decode_loop_cases:
  "decode_loop tbl cc len bs = Inr (op, bs') \<Longrightarrow> 0 \<le> len \<Longrightarrow> len \<le> 16 \<Longrightarrow>
   (\<exists>n bits. 1 \<le> n \<and> len + int n \<le> 16 \<and> read_bits n bs = Inr (bits, bs')
      \<and> (\<forall>k. 1 \<le> k \<and> k < n \<longrightarrow>
            table_scan tbl (len + int k) (foldl shift_in cc (take k bits)) = None)
      \<and> table_scan tbl (len + int n) (foldl shift_in cc bits) = Some op)
   \<or> (op = 0xFF \<and> (\<exists>bits. read_bits (nat (16 - len)) bs = Inr (bits, bs')
      \<and> (\<forall>k. 1 \<le> k \<and> k \<le> nat (16 - len) \<longrightarrow>
            table_scan tbl (len + int k) (foldl shift_in cc (take k bits)) = None)))"
proof (induction tbl cc len bs rule: decode_loop.induct)
  case (1 tbl cc len bs)
  note simp = decode_loop.simps[of tbl cc len bs]
  show ?case
  proof (cases "len < 16")
    case False
    then have "len = 16" using "1.prems" by simp
    then show ?thesis using "1.prems"(1) by (auto simp: decode_loop.simps)
  next
    case True
    from "1.prems"(1) True obtain b bs1 where rb: "bitstream_read_bit bs = Inr (b, bs1)"
      by (auto simp: simp split: sum.splits)
    show ?thesis
    proof (cases "table_scan tbl (len + 1) (shift_in cc b)")
      case (Some op')
      then have "op' = op" "bs1 = bs'" using "1.prems"(1) True rb by (auto simp: simp)
      then have "read_bits 1 bs = Inr ([b], bs')" using rb by simp
      moreover have "table_scan tbl (len + int 1) (foldl shift_in cc [b]) = Some op"
        using Some \<open>op' = op\<close> by simp
      ultimately have "\<exists>n bits. 1 \<le> n \<and> len + int n \<le> 16 \<and> read_bits n bs = Inr (bits, bs')
        \<and> (\<forall>k. 1 \<le> k \<and> k < n \<longrightarrow>
              table_scan tbl (len + int k) (foldl shift_in cc (take k bits)) = None)
        \<and> table_scan tbl (len + int n) (foldl shift_in cc bits) = Some op"
        using True by (intro exI[of _ 1] exI[of _ "[b]"]) auto
      then show ?thesis by blast
    next
      case None
      then have step: "decode_loop tbl (shift_in cc b) (len + 1) bs1 = Inr (op, bs')"
        using "1.prems"(1) True rb by (simp add: simp)
      have l0: "0 \<le> len + 1" "len + 1 \<le> 16" using "1.prems"(2) True by simp_all
      from "1.IH"[OF True rb refl None step l0]
      show ?thesis
      proof
        assume "\<exists>n bits. 1 \<le> n \<and> len + 1 + int n \<le> 16 \<and> read_bits n bs1 = Inr (bits, bs')
          \<and> (\<forall>k. 1 \<le> k \<and> k < n \<longrightarrow>
              table_scan tbl (len + 1 + int k) (foldl shift_in (shift_in cc b) (take k bits)) = None)
          \<and> table_scan tbl (len + 1 + int n) (foldl shift_in (shift_in cc b) bits) = Some op"
        then obtain n bits where n: "1 \<le> n" "len + 1 + int n \<le> 16"
          and r: "read_bits n bs1 = Inr (bits, bs')"
          and bf: "\<forall>k. 1 \<le> k \<and> k < n \<longrightarrow>
              table_scan tbl (len + 1 + int k) (foldl shift_in (shift_in cc b) (take k bits)) = None"
          and hit: "table_scan tbl (len + 1 + int n) (foldl shift_in (shift_in cc b) bits) = Some op"
          by blast
        have r': "read_bits (Suc n) bs = Inr (b # bits, bs')" using rb r by simp
        have bf': "\<forall>k. 1 \<le> k \<and> k < Suc n \<longrightarrow>
              table_scan tbl (len + int k) (foldl shift_in cc (take k (b # bits))) = None"
        proof (intro allI impI)
          fix k assume k: "1 \<le> k \<and> k < Suc n"
          then obtain j where j: "k = Suc j" by (cases k) auto
          show "table_scan tbl (len + int k) (foldl shift_in cc (take k (b # bits))) = None"
          proof (cases "j = 0")
            case True
            then show ?thesis using j None by simp
          next
            case False
            then have "1 \<le> j \<and> j < n" using k j by simp
            from bf[rule_format, OF this] show ?thesis using j
              by (simp add: add.commute add.left_commute)
          qed
        qed
        have hit': "table_scan tbl (len + int (Suc n)) (foldl shift_in cc (b # bits)) = Some op"
          using hit by (simp add: add.commute add.left_commute)
        have "1 \<le> Suc n \<and> len + int (Suc n) \<le> 16" using n by simp
        then show ?thesis using r' bf' hit' by blast
      next
        assume "op = 0xFF \<and> (\<exists>bits. read_bits (nat (16 - (len + 1))) bs1 = Inr (bits, bs')
          \<and> (\<forall>k. 1 \<le> k \<and> k \<le> nat (16 - (len + 1)) \<longrightarrow>
              table_scan tbl (len + 1 + int k) (foldl shift_in (shift_in cc b) (take k bits)) = None))"
        then obtain bits where op: "op = 0xFF"
          and r: "read_bits (nat (16 - (len + 1))) bs1 = Inr (bits, bs')"
          and al: "\<forall>k. 1 \<le> k \<and> k \<le> nat (16 - (len + 1)) \<longrightarrow>
              table_scan tbl (len + 1 + int k) (foldl shift_in (shift_in cc b) (take k bits)) = None"
          by blast
        have suc: "nat (16 - len) = Suc (nat (16 - (len + 1)))" using True by simp
        have r': "read_bits (nat (16 - len)) bs = Inr (b # bits, bs')"
          using rb r suc by simp
        have al': "\<forall>k. 1 \<le> k \<and> k \<le> nat (16 - len) \<longrightarrow>
              table_scan tbl (len + int k) (foldl shift_in cc (take k (b # bits))) = None"
        proof (intro allI impI)
          fix k assume k: "1 \<le> k \<and> k \<le> nat (16 - len)"
          then obtain j where j: "k = Suc j" by (cases k) auto
          show "table_scan tbl (len + int k) (foldl shift_in cc (take k (b # bits))) = None"
          proof (cases "j = 0")
            case True
            then show ?thesis using j None by simp
          next
            case False
            then have "1 \<le> j \<and> j \<le> nat (16 - (len + 1))" using k j suc by simp
            from al[rule_format, OF this] show ?thesis using j
              by (simp add: add.commute add.left_commute)
          qed
        qed
        show ?thesis using op r' al' by blast
      qed
    qed
  qed
qed

subsection \<open>Decoding one opcode\<close>

text \<open>
  Claim C4. Let the table be prefix-free and \<open>e\<close> a valid codeword of it (1 to 16 bits,
  its code below 2 to the power of its length). On a stream whose next bits are exactly
  the bit sequence of \<open>e\<close>, most significant bit first, \<open>huffman_decode_opcode\<close> returns
  the opcode of \<open>e\<close>, leaves the stream just after these bits, and had no match at any
  shorter length.
\<close>

theorem decode_valid_codeword:
  assumes "prefix_free huffman_table" "e \<in> set huffman_table" "valid_codeword e"
    and "read_bits (nat (code_len e)) bs = Inr (codeword_bits e, bs')"
  shows "huffman_decode_opcode huffman_table bs = Inr (opcode e, bs')
       \<and> no_match huffman_table (codeword_bits e) (nat (code_len e) - 1)"
proof -
  let ?n = "nat (code_len e)" and ?c = "code e" and ?bits = "codeword_bits e"
  have v: "1 \<le> code_len e" "code_len e \<le> 16" "0 \<le> ?c" "?c < 2 ^ ?n"
    using assms(3) by (simp_all add: valid_codeword_def)
  have n: "1 \<le> ?n" "?n \<le> 16" "int ?n = code_len e" using v(1,2) by linarith+
  note c = v(3,4)
  have bits: "?bits = msb_bits ?n ?c" by (simp add: codeword_bits_def)
  have acc: "uint (accumulate (take k ?bits)) = ?c div 2 ^ (?n - k)" if "k \<le> ?n" for k
    using accumulate_prefix(1)[OF c n(2) that] bits by simp
  have same: "e' = e"
    if e': "e' \<in> set huffman_table" "code_len e' = int k" "code e' = ?c div 2 ^ (?n - k)"
      and k: "1 \<le> k" "k \<le> ?n" for e' k
  proof -
    have "0 \<le> ?c div 2 ^ (?n - k)" using c(1) by (simp add: pos_imp_zdiv_nonneg_iff)
    then have ve': "valid_codeword e'"
      using e'(2,3) k n(2) accumulate_prefix(2)[OF c n(2) k(2)]
      by (simp add: valid_codeword_def)
    have "codeword_bits e' = msb_bits k (?c div 2 ^ (?n - k))"
      using e'(2,3) by (simp add: codeword_bits_def)
    also have "\<dots> = take k ?bits" using take_msb_bits[OF k(2), of ?c] bits by simp
    finally have cw: "codeword_bits e' = take k ?bits" .
    then have "length (codeword_bits e') = k" using k bits by (simp add: length_msb_bits)
    then have "take (length (codeword_bits e')) ?bits = codeword_bits e'" using cw by simp
    then show ?thesis using assms(1,2,3) e'(1) ve' by (auto simp: prefix_free_def)
  qed
  have before: "table_scan huffman_table (int k) (accumulate (take k ?bits)) = None"
    if k: "1 \<le> k" "k < ?n" for k
  proof (rule ccontr)
    assume "table_scan huffman_table (int k) (accumulate (take k ?bits)) \<noteq> None"
    then obtain op where "table_scan huffman_table (int k) (accumulate (take k ?bits)) = Some op"
      by auto
    from table_scan_Some[OF this] obtain e' where
      e': "e' \<in> set huffman_table" "code_len e' = int k"
        "code e' = uint (accumulate (take k ?bits))"
      by blast
    have "e' = e" using same[OF e'(1,2) _ k(1)] e'(3) acc[of k] k by simp
    then show False using e'(2) k n(3) by simp
  qed
  have full: "uint (accumulate ?bits) = ?c" using acc[of ?n] bits by (simp add: length_msb_bits)
  have hit: "table_scan huffman_table (int ?n) (accumulate ?bits) = Some (opcode e)"
  proof -
    from table_scan_hit[OF assms(2), of "int ?n" "accumulate ?bits"] n(3) full
    obtain op where s: "table_scan huffman_table (int ?n) (accumulate ?bits) = Some op" by auto
    from table_scan_Some[OF s] obtain e' where
      e': "e' \<in> set huffman_table" "code_len e' = int ?n" "code e' = uint (accumulate ?bits)"
        "opcode e' = op"
      by blast
    have "e' = e" using same[OF e'(1,2) _ n(1) le_refl] e'(3) full by simp
    then show ?thesis using s e'(4) by simp
  qed
  have "decode_loop huffman_table 0 0 bs = Inr (opcode e, bs')"
  proof (rule decode_loop_match[OF assms(4) n(1)])
    show "0 + int ?n \<le> 16" using n(3) v(2) by simp
    show "\<forall>k. 1 \<le> k \<and> k < ?n \<longrightarrow>
        table_scan huffman_table (0 + int k) (foldl shift_in 0 (take k ?bits)) = None"
      using before by (simp add: accumulate_def)
    show "table_scan huffman_table (0 + int ?n) (foldl shift_in 0 ?bits) = Some (opcode e)"
      using hit by (simp add: accumulate_def)
  qed
  moreover have "no_match huffman_table ?bits (?n - 1)"
    unfolding no_match_def using before by auto
  ultimately show ?thesis by (simp add: huffman_decode_opcode_def)
qed

lemma read_bits_numeral:
  "read_bits (numeral k) bs =
     (case bitstream_read_bit bs of
        Inl e \<Rightarrow> Inl e
      | Inr (b, bs') \<Rightarrow>
          (case read_bits (pred_numeral k) bs' of
             Inl e \<Rightarrow> Inl e
           | Inr (bits, bs'') \<Rightarrow> Inr (b # bits, bs'')))"
  by (simp add: numeral_eq_Suc)

lemma read_bits_1:
  "read_bits 1 bs =
     (case bitstream_read_bit bs of Inl e \<Rightarrow> Inl e | Inr (b, bs') \<Rightarrow> Inr ([b], bs'))"
  by (simp split: sum.splits)

lemma msb_bits_numeral:
  "msb_bits (numeral k) c = msb_bits (pred_numeral k) (c div 2) @ [if odd c then 1 else 0]"
  by (simp add: numeral_eq_Suc)

lemmas stream_eval = read_bits_numeral read_bits_1 bitstream_init_def bitstream_read_bit_def
  array_read_def

theorem decode_valid_codeword_witness:
  "prefix_free sample_table
   \<and> \<lparr>code = 2, code_len = 2, opcode = 0x23\<rparr> \<in> set sample_table
   \<and> valid_codeword \<lparr>code = 2, code_len = 2, opcode = 0x23\<rparr>
   \<and> codeword_bits \<lparr>code = 2, code_len = 2, opcode = 0x23\<rparr> = [1, 0]
   \<and> read_bits 2 (bitstream_init [0x80])
       = Inr ([1, 0], \<lparr>buffer = 0x200, bits_available = 6, data = [0x80], data_pos = 1\<rparr>)
   \<and> huffman_decode_opcode sample_table (bitstream_init [0x80])
       = Inr (0x23, \<lparr>buffer = 0x200, bits_available = 6, data = [0x80], data_pos = 1\<rparr>)"
proof -
  let ?e = "\<lparr>code = 2, code_len = 2, opcode = 0x23\<rparr>"
  let ?bs' = "\<lparr>buffer = 0x200, bits_available = 6, data = [0x80], data_pos = 1\<rparr>"
  have p: "prefix_free sample_table"
    by (simp add: prefix_free_def valid_codeword_def sample_table_def codeword_bits_def msb_bits_numeral)
  have m: "?e \<in> set sample_table" by (simp add: sample_table_def)
  have v: "valid_codeword ?e" by (simp add: valid_codeword_def)
  have c: "codeword_bits ?e = [1, 0]" by (simp add: codeword_bits_def msb_bits_numeral)
  have r: "read_bits 2 (bitstream_init [0x80]) = Inr ([1, 0], ?bs')"
    by (simp add: stream_eval)
  then have r': "read_bits (nat (code_len ?e)) (bitstream_init [0x80]) = Inr (codeword_bits ?e, ?bs')"
    using c by simp
  from decode_valid_codeword[OF p m v r'] show ?thesis using p m v c r by simp
qed

text \<open>
  Claim C5, as the code has it. When 16 bits are consumed and none of the 16 accumulated
  (length, value) pairs is in the table, \<open>huffman_decode_opcode\<close> returns 0xFF.
  Conversely a result 0xFF comes from this no-match case or from a matching table entry
  whose opcode is 0xFF, which the function returns like any other; when no entry of the
  table carries the opcode 0xFF, the no-match case is the only one.
\<close>

theorem decode_sentinel_cases:
  "(read_bits 16 bs = Inr (bits, bs') \<and> no_match huffman_table bits 16
      \<longrightarrow> huffman_decode_opcode huffman_table bs = Inr (0xFF, bs'))
   \<and> (huffman_decode_opcode huffman_table bs = Inr (0xFF, bs'') \<longrightarrow>
        (\<exists>bits. read_bits 16 bs = Inr (bits, bs'') \<and> no_match huffman_table bits 16)
      \<or> (\<exists>n bits. 1 \<le> n \<and> n \<le> 16 \<and> read_bits n bs = Inr (bits, bs'')
            \<and> no_match huffman_table bits (n - 1)
            \<and> table_scan huffman_table (int n) (accumulate bits) = Some 0xFF))
   \<and> ((\<forall>e \<in> set huffman_table. opcode e \<noteq> 0xFF)
        \<and> huffman_decode_opcode huffman_table bs = Inr (0xFF, bs'') \<longrightarrow>
        (\<exists>bits. read_bits 16 bs = Inr (bits, bs'') \<and> no_match huffman_table bits 16))"
proof -
  have miss: "huffman_decode_opcode huffman_table bs = Inr (0xFF, bs')"
    if a: "read_bits 16 bs = Inr (bits, bs') \<and> no_match huffman_table bits 16"
  proof -
    have "decode_loop huffman_table 0 0 bs = Inr (0xFF, bs')"
    proof (rule decode_loop_miss[of 16 bs bits bs'])
      show "read_bits 16 bs = Inr (bits, bs')" using a by simp
      show "0 + int 16 = 16" by simp
      show "\<forall>k. 1 \<le> k \<and> k \<le> 16 \<longrightarrow>
          table_scan huffman_table (0 + int k) (foldl shift_in 0 (take k bits)) = None"
        using a by (simp add: no_match_def accumulate_def)
    qed
    then show ?thesis by (simp add: huffman_decode_opcode_def)
  qed
  have only: "(\<exists>bits. read_bits 16 bs = Inr (bits, bs'') \<and> no_match huffman_table bits 16)
      \<or> (\<exists>n bits. 1 \<le> n \<and> n \<le> 16 \<and> read_bits n bs = Inr (bits, bs'')
            \<and> no_match huffman_table bits (n - 1)
            \<and> table_scan huffman_table (int n) (accumulate bits) = Some 0xFF)"
    if "huffman_decode_opcode huffman_table bs = Inr (0xFF, bs'')"
  proof -
    from that have d: "decode_loop huffman_table 0 0 bs = Inr (0xFF, bs'')"
      by (simp add: huffman_decode_opcode_def)
    have "(\<exists>n bits. 1 \<le> n \<and> int n \<le> 16 \<and> read_bits n bs = Inr (bits, bs'')
            \<and> (\<forall>k. 1 \<le> k \<and> k < n \<longrightarrow>
                  table_scan huffman_table (int k) (accumulate (take k bits)) = None)
            \<and> table_scan huffman_table (int n) (accumulate bits) = Some 0xFF)
        \<or> (\<exists>bits. read_bits 16 bs = Inr (bits, bs'')
            \<and> (\<forall>k. 1 \<le> k \<and> k \<le> 16 \<longrightarrow>
                  table_scan huffman_table (int k) (accumulate (take k bits)) = None))"
      using decode_loop_cases[OF d] by (simp add: accumulate_def)
    then show ?thesis
    proof (elim disjE exE conjE)
      fix n bits
      assume n: "1 \<le> n" "int n \<le> 16" and r: "read_bits n bs = Inr (bits, bs'')"
        and bf: "\<forall>k. 1 \<le> k \<and> k < n \<longrightarrow>
            table_scan huffman_table (int k) (accumulate (take k bits)) = None"
        and hit: "table_scan huffman_table (int n) (accumulate bits) = Some 0xFF"
      have "no_match huffman_table bits (n - 1)"
        unfolding no_match_def using bf by auto
      then show ?thesis using n r hit by auto
    next
      fix bits
      assume r: "read_bits 16 bs = Inr (bits, bs'')"
        and al: "\<forall>k. 1 \<le> k \<and> k \<le> 16 \<longrightarrow>
            table_scan huffman_table (int k) (accumulate (take k bits)) = None"
      have "no_match huffman_table bits 16"
        unfolding no_match_def using al by auto
      then show ?thesis using r by auto
    qed
  qed
  have strict: "\<exists>bits. read_bits 16 bs = Inr (bits, bs'') \<and> no_match huffman_table bits 16"
    if t: "\<forall>e \<in> set huffman_table. opcode e \<noteq> 0xFF"
      and d: "huffman_decode_opcode huffman_table bs = Inr (0xFF, bs'')"
  proof -
    have noFF: "table_scan huffman_table len cc \<noteq> Some 0xFF" for len cc
    proof
      assume "table_scan huffman_table len cc = Some 0xFF"
      from table_scan_Some[OF this] t show False by auto
    qed
    from only[OF d] show ?thesis
    proof
      assume "\<exists>bits. read_bits 16 bs = Inr (bits, bs'') \<and> no_match huffman_table bits 16"
      then show ?thesis .
    next
      assume "\<exists>n bits. 1 \<le> n \<and> n \<le> 16 \<and> read_bits n bs = Inr (bits, bs'')
            \<and> no_match huffman_table bits (n - 1)
            \<and> table_scan huffman_table (int n) (accumulate bits) = Some 0xFF"
      then obtain n bits where "table_scan huffman_table (int n) (accumulate bits) = Some 0xFF"
        by blast
      then show ?thesis using noFF by simp
    qed
  qed
  show ?thesis
  proof (intro conjI impI)
    assume "read_bits 16 bs = Inr (bits, bs') \<and> no_match huffman_table bits 16"
    then show "huffman_decode_opcode huffman_table bs = Inr (0xFF, bs')" by (rule miss)
  next
    assume "huffman_decode_opcode huffman_table bs = Inr (0xFF, bs'')"
    then show "(\<exists>bits. read_bits 16 bs = Inr (bits, bs'') \<and> no_match huffman_table bits 16)
      \<or> (\<exists>n bits. 1 \<le> n \<and> n \<le> 16 \<and> read_bits n bs = Inr (bits, bs'')
            \<and> no_match huffman_table bits (n - 1)
            \<and> table_scan huffman_table (int n) (accumulate bits) = Some 0xFF)"
      by (rule only)
  next
    assume a: "(\<forall>e \<in> set huffman_table. opcode e \<noteq> 0xFF)
        \<and> huffman_decode_opcode huffman_table bs = Inr (0xFF, bs'')"
    show "\<exists>bits. read_bits 16 bs = Inr (bits, bs'') \<and> no_match huffman_table bits 16"
      using strict[OF conjunct1[OF a] conjunct2[OF a]] .
  qed
qed

theorem decode_sentinel_cases_witness:
  "read_bits 16 (bitstream_init [0xFF, 0xFF])
     = Inr ([1,1,1,1,1,1,1,1,1,1,1,1,1,1,1,1],
            \<lparr>buffer = 0xFF00, bits_available = 0, data = [0xFF, 0xFF], data_pos = 2\<rparr>)
   \<and> no_match [\<lparr>code = 0, code_len = 1, opcode = 0x05\<rparr>] [1,1,1,1,1,1,1,1,1,1,1,1,1,1,1,1] 16
   \<and> huffman_decode_opcode [\<lparr>code = 0, code_len = 1, opcode = 0x05\<rparr>] (bitstream_init [0xFF, 0xFF])
     = Inr (0xFF, \<lparr>buffer = 0xFF00, bits_available = 0, data = [0xFF, 0xFF], data_pos = 2\<rparr>)"
proof -
  let ?bits = "[1,1,1,1,1,1,1,1,1,1,1,1,1,1,1,1] :: u32 list"
  let ?bs' = "\<lparr>buffer = 0xFF00, bits_available = 0, data = [0xFF, 0xFF], data_pos = 2\<rparr>"
  have r: "read_bits 16 (bitstream_init [0xFF, 0xFF]) = Inr (?bits, ?bs')"
    by (simp add: stream_eval)
  have n: "no_match [\<lparr>code = 0, code_len = 1, opcode = 0x05\<rparr>] ?bits 16"
    by (simp add: no_match_def accumulate_def shift_in_def)
  have "huffman_decode_opcode [\<lparr>code = 0, code_len = 1, opcode = 0x05\<rparr>]
          (bitstream_init [0xFF, 0xFF]) = Inr (0xFF, ?bs')"
    using decode_sentinel_cases[of "bitstream_init [0xFF, 0xFF]" ?bits ?bs'
      "[\<lparr>code = 0, code_len = 1, opcode = 0x05\<rparr>]", THEN conjunct1] r n
    by blast
  then show ?thesis using r n by simp
qed

text \<open>
  The claim as the specification words it fails for a table that holds the frame
  terminator: with the codeword 11 for the opcode 0xFF, the stream 1100... yields 0xFF
  after two bits, although its 16 bits do match the table.
\<close>

theorem decode_sentinel_from_table_entry:
  "huffman_decode_opcode sample_table (bitstream_init [0xC0, 0x00])
     = Inr (0xFF, \<lparr>buffer = 0x300, bits_available = 6, data = [0xC0, 0x00], data_pos = 1\<rparr>)
   \<and> read_bits 16 (bitstream_init [0xC0, 0x00])
     = Inr ([1,1,0,0,0,0,0,0,0,0,0,0,0,0,0,0],
            \<lparr>buffer = 0, bits_available = 0, data = [0xC0, 0x00], data_pos = 2\<rparr>)
   \<and> \<not> no_match sample_table [1,1,0,0,0,0,0,0,0,0,0,0,0,0,0,0] 16"
  by (simp add: huffman_decode_opcode_def decode_loop.simps stream_eval sample_table_def
      shift_in_def no_match_def accumulate_def)

section \<open>Properties of \<open>huffman_decompress_all_opcodes\<close>\<close>

lemma read_bit_ok:
  assumes "stream_ok bs" "1 \<le> bits_left bs"
  shows "\<exists>b bs'. bitstream_read_bit bs = Inr (b, bs') \<and> stream_ok bs'
           \<and> bits_left bs' = bits_left bs - 1"
proof (cases "bits_available bs = 0")
  case True
  then have "data_pos bs < int (length (data bs))" using assms by (simp add: bits_left_def)
  then show ?thesis using True assms
    by (simp add: bitstream_read_bit_def array_read_def stream_ok_def bits_left_def)
next
  case False
  then show ?thesis using assms
    by (simp add: bitstream_read_bit_def stream_ok_def bits_left_def)
qed

lemma decode_loop_ok:
  "stream_ok bs \<Longrightarrow> 0 \<le> len \<Longrightarrow> len \<le> 16 \<Longrightarrow> 16 - len \<le> bits_left bs \<Longrightarrow>
   \<exists>op bs'. decode_loop tbl cc len bs = Inr (op, bs') \<and> stream_ok bs'
      \<and> bits_left bs - (16 - len) \<le> bits_left bs'"
proof (induction tbl cc len bs rule: decode_loop.induct)
  case (1 tbl cc len bs)
  note simp = decode_loop.simps[of tbl cc len bs]
  show ?case
  proof (cases "len < 16")
    case False
    then show ?thesis using "1.prems" by (simp add: decode_loop.simps)
  next
    case True
    then have "1 \<le> bits_left bs" using "1.prems"(4) by simp
    from read_bit_ok[OF "1.prems"(1) this] obtain b bs1 where
      rb: "bitstream_read_bit bs = Inr (b, bs1)" and ok: "stream_ok bs1"
      and bl: "bits_left bs1 = bits_left bs - 1"
      by blast
    show ?thesis
    proof (cases "table_scan tbl (len + 1) (shift_in cc b)")
      case (Some op)
      then show ?thesis using True rb ok bl by (simp add: simp)
    next
      case None
      have l: "0 \<le> len + 1" "len + 1 \<le> 16" "16 - (len + 1) \<le> bits_left bs1"
        using "1.prems" True bl by simp_all
      from "1.IH"[OF True rb refl None ok l] obtain op bs' where
        "decode_loop tbl (shift_in cc b) (len + 1) bs1 = Inr (op, bs')" "stream_ok bs'"
        "bits_left bs1 - (16 - (len + 1)) \<le> bits_left bs'"
        by blast
      then show ?thesis using True rb None bl by (simp add: simp)
    qed
  qed
qed

lemma decode_loop_error: "decode_loop tbl cc len bs = Inl e \<Longrightarrow> e = ReadPastEnd"
proof (induction tbl cc len bs rule: decode_loop.induct)
  case (1 tbl cc len bs)
  note simp = decode_loop.simps[of tbl cc len bs]
  show ?case
  proof (cases "len < 16")
    case False
    then show ?thesis using "1.prems" by (simp add: simp)
  next
    case True
    show ?thesis
    proof (cases "bitstream_read_bit bs")
      case (Inl e')
      then show ?thesis using True "1.prems" read_bit_error[OF Inl] by (simp add: simp)
    next
      case (Inr r)
      obtain b bs1 where r: "r = (b, bs1)" by (cases r)
      show ?thesis
      proof (cases "table_scan tbl (len + 1) (shift_in cc b)")
        case (Some op)
        then show ?thesis using True Inr r "1.prems" by (simp add: simp)
      next
        case None
        have "decode_loop tbl (shift_in cc b) (len + 1) bs1 = Inl e"
          using True Inr r None "1.prems" by (simp add: simp)
        from "1.IH"[OF True _ _ None this] Inr r show ?thesis by simp
      qed
    qed
  qed
qed

lemma opcodes_loop_frame:
  "opcodes_loop tbl L (bs, buf, count, bits_read) = Inr (buf', count') \<Longrightarrow>
   0 \<le> count \<Longrightarrow>
   count \<le> count' \<and> count' \<le> max count 8192 \<and> length buf' = length buf
   \<and> (\<forall>k<length buf. int k < count \<or> count' \<le> int k \<longrightarrow> buf' ! k = buf ! k)
   \<and> (count' = count \<or> bits_read + 6 * (count' - count - 1) < L)
   \<and> (bits_read < L \<and> count < 8192 \<longrightarrow> count < count')"
proof (induction tbl L "(bs, buf, count, bits_read)" arbitrary: bs buf count bits_read
    rule: opcodes_loop.induct)
  case (1 tbl L bs buf count bits_read)
  note simp = opcodes_loop.simps[of tbl L bs buf count bits_read]
  show ?case
  proof (cases "bits_read < L \<and> count < 8192")
    case False
    then show ?thesis using "1.prems" by (auto simp: simp)
  next
    case True
    from "1.prems"(1) True obtain op bs1 where
      d: "huffman_decode_opcode tbl bs = Inr (op, bs1)"
      by (auto simp: simp split: sum.splits)
    from "1.prems"(1) True d obtain buf1 where
      w: "array_write buf count op = Inr buf1"
      by (auto simp: simp split: sum.splits)
    then have buf1: "buf1 = buf[nat count := op]" "count < int (length buf)"
      by (auto simp: array_write_def split: if_splits)
    show ?thesis
    proof (cases "op = 0xFF \<and> count + 1 > 4000")
      case brk: True
      then have "buf' = buf1" "count' = count + 1"
        using "1.prems"(1) True d w by (auto simp: simp)
      then show ?thesis using buf1 True "1.prems"(2) by auto
    next
      case cont: False
      then have r: "opcodes_loop tbl L (bs1, buf1, count + 1, bits_read + 6) = Inr (buf', count')"
        using "1.prems"(1) True d w by (auto simp: simp)
      have c1: "0 \<le> count + 1" using "1.prems"(2) by simp
      from "1.hyps"[OF True d refl w cont r c1]
      have ih: "count + 1 \<le> count'" "count' \<le> max (count + 1) 8192" "length buf' = length buf1"
        "\<forall>k<length buf1. int k < count + 1 \<or> count' \<le> int k \<longrightarrow> buf' ! k = buf1 ! k"
        "count' = count + 1 \<or> bits_read + 6 + 6 * (count' - (count + 1) - 1) < L"
        by simp_all
      have "\<forall>k<length buf. int k < count \<or> count' \<le> int k \<longrightarrow> buf' ! k = buf ! k"
      proof (intro allI impI)
        fix k assume k: "k < length buf" "int k < count \<or> count' \<le> int k"
        have "int (nat count) = count" using "1.prems"(2) by simp
        then have "int k \<noteq> int (nat count)" using k(2) ih(1) by linarith
        then have "nat count \<noteq> k" by auto
        moreover have "buf' ! k = buf1 ! k" using ih(4) k buf1(1) ih(1) by auto
        ultimately show "buf' ! k = buf ! k" using buf1(1) by simp
      qed
      moreover have "count' = count \<or> bits_read + 6 * (count' - count - 1) < L"
        using ih(5) True by auto
      ultimately show ?thesis using ih(1,2,3) buf1(1) True by auto
    qed
  qed
qed

lemma opcodes_loop_error:
  "opcodes_loop tbl L (bs, buf, count, bits_read) = Inl e \<Longrightarrow>
   0 \<le> count \<Longrightarrow> length buf = 8192 \<Longrightarrow> e = ReadPastEnd"
proof (induction tbl L "(bs, buf, count, bits_read)" arbitrary: bs buf count bits_read
    rule: opcodes_loop.induct)
  case (1 tbl L bs buf count bits_read)
  note simp = opcodes_loop.simps[of tbl L bs buf count bits_read]
  show ?case
  proof (cases "bits_read < L \<and> count < 8192")
    case False
    then show ?thesis using "1.prems" by (auto simp: simp)
  next
    case True
    show ?thesis
    proof (cases "huffman_decode_opcode tbl bs")
      case (Inl e')
      then have "e' = ReadPastEnd"
        using decode_loop_error[of tbl 0 0 bs e'] by (simp add: huffman_decode_opcode_def)
      then show ?thesis using True Inl "1.prems"(1) by (simp add: simp)
    next
      case (Inr r)
      obtain op bs1 where r: "r = (op, bs1)" by (cases r)
      have w: "array_write buf count op = Inr (buf[nat count := op])"
        using True "1.prems"(2,3) by (simp add: array_write_def)
      show ?thesis
      proof (cases "op = 0xFF \<and> count + 1 > 4000")
        case brk: True
        then show ?thesis using True Inr r w "1.prems"(1) by (simp add: simp)
      next
        case cont: False
        have rec: "opcodes_loop tbl L (bs1, buf[nat count := op], count + 1, bits_read + 6) = Inl e"
          using True Inr r w cont "1.prems"(1) by (auto simp: simp)
        have "0 \<le> count + 1" "length (buf[nat count := op]) = 8192"
          using "1.prems"(2,3) by simp_all
        from "1.hyps"[OF True _ _ w cont rec this] Inr r show ?thesis by simp
      qed
    qed
  qed
qed

lemma opcodes_loop_returns:
  "stream_ok bs \<Longrightarrow>
   16 * min (8192 - count) ((L - bits_read + 5) div 6) \<le> bits_left bs \<Longrightarrow> 0 \<le> count \<Longrightarrow>
   length buf = 8192 \<Longrightarrow>
   \<exists>buf' count'. opcodes_loop tbl L (bs, buf, count, bits_read) = Inr (buf', count')"
proof (induction tbl L "(bs, buf, count, bits_read)" arbitrary: bs buf count bits_read
    rule: opcodes_loop.induct)
  case (1 tbl L bs buf count bits_read)
  note simp = opcodes_loop.simps[of tbl L bs buf count bits_read]
  show ?case
  proof (cases "bits_read < L \<and> count < 8192")
    case False
    then show ?thesis by (auto simp: simp)
  next
    case True
    define q where "q = (L - bits_read + 5) div 6"
    define m where "m = min (8192 - count) q"
    have rec: "(L - (bits_read + 6) + 5) div 6 = q - 1" unfolding q_def by linarith
    have "1 \<le> q" unfolding q_def using True by linarith
    then have one: "1 \<le> m" unfolding m_def using True by simp
    have need: "16 * m \<le> bits_left bs" using "1.prems"(2) unfolding m_def q_def .
    have "16 - 0 \<le> bits_left bs" using one need by linarith
    from decode_loop_ok[OF "1.prems"(1) _ _ this, of tbl 0] obtain op bs1 where
      d: "huffman_decode_opcode tbl bs = Inr (op, bs1)" and ok: "stream_ok bs1"
      and bl: "bits_left bs - (16 - 0) \<le> bits_left bs1"
      by (auto simp: huffman_decode_opcode_def)
    have w: "array_write buf count op = Inr (buf[nat count := op])"
      using True "1.prems"(3,4) by (simp add: array_write_def)
    show ?thesis
    proof (cases "op = 0xFF \<and> count + 1 > 4000")
      case brk: True
      then show ?thesis using True d w by (simp add: simp)
    next
      case cont: False
      have m1: "min (8192 - (count + 1)) (q - 1) = m - 1" unfolding m_def by simp
      have "16 * (m - 1) \<le> bits_left bs1" using need bl by (simp add: algebra_simps)
      then have pre: "16 * min (8192 - (count + 1)) ((L - (bits_read + 6) + 5) div 6)
            \<le> bits_left bs1"
        unfolding rec m1 .
      have pre2: "0 \<le> count + 1" "length (buf[nat count := op]) = 8192"
        using "1.prems"(3,4) by simp_all
      from "1.hyps"[OF True d refl w cont ok pre pre2] obtain buf' count' where
        "opcodes_loop tbl L (bs1, buf[nat count := op], count + 1, bits_read + 6)
           = Inr (buf', count')"
        by blast
      then show ?thesis using True d w cont by (auto simp: simp)
    qed
  qed
qed

lemma opcodes_loop_break:
  "opcodes_loop tbl L (bs, buf, count, bits_read) = Inr (buf', count') \<Longrightarrow>
   0 \<le> count \<Longrightarrow>
   (\<forall>k. count \<le> k \<and> k < count' \<and> buf' ! nat k = 0xFF \<and> 4000 < k + 1 \<longrightarrow> count' = k + 1)
   \<and> (\<forall>k. count \<le> k \<and> k < count' \<and> buf' ! nat k = 0xFF \<and> k + 1 \<le> 4000
          \<and> bits_read + 6 * (k + 1 - count) < L \<longrightarrow> k + 1 < count')"
proof (induction tbl L "(bs, buf, count, bits_read)" arbitrary: bs buf count bits_read
    rule: opcodes_loop.induct)
  case (1 tbl L bs buf count bits_read)
  note simp = opcodes_loop.simps[of tbl L bs buf count bits_read]
  show ?case
  proof (cases "bits_read < L \<and> count < 8192")
    case False
    then have "count' = count" using "1.prems"(1) by (auto simp: simp)
    then show ?thesis by simp
  next
    case True
    from "1.prems"(1) True obtain op bs1 where
      d: "huffman_decode_opcode tbl bs = Inr (op, bs1)"
      by (auto simp: simp split: sum.splits)
    from "1.prems"(1) True d obtain buf1 where
      w: "array_write buf count op = Inr buf1"
      by (auto simp: simp split: sum.splits)
    then have buf1: "buf1 = buf[nat count := op]" "count < int (length buf)"
      by (auto simp: array_write_def split: if_splits)
    show ?thesis
    proof (cases "op = 0xFF \<and> count + 1 > 4000")
      case brk: True
      then have "buf' = buf1" "count' = count + 1"
        using "1.prems"(1) True d w by (auto simp: simp)
      then show ?thesis using brk by auto
    next
      case cont: False
      then have r: "opcodes_loop tbl L (bs1, buf1, count + 1, bits_read + 6) = Inr (buf', count')"
        using "1.prems"(1) True d w by (auto simp: simp)
      have c1: "0 \<le> count + 1" using "1.prems"(2) by simp
      from opcodes_loop_frame[OF r c1]
      have fr: "count + 1 \<le> count'"
        "\<forall>k<length buf1. int k < count + 1 \<or> count' \<le> int k \<longrightarrow> buf' ! k = buf1 ! k"
        "bits_read + 6 < L \<and> count + 1 < 8192 \<longrightarrow> count + 1 < count'"
        by simp_all
      have here: "buf' ! nat count = op"
      proof -
        have "nat count < length buf1" using buf1 "1.prems"(2) by simp
        moreover have "int (nat count) < count + 1" using "1.prems"(2) by simp
        ultimately have "buf' ! nat count = buf1 ! nat count" using fr(2) by blast
        then show ?thesis using buf1 "1.prems"(2) by simp
      qed
      from "1.hyps"[OF True d refl w cont r c1]
      have ih1: "\<forall>k. count + 1 \<le> k \<and> k < count' \<and> buf' ! nat k = 0xFF \<and> 4000 < k + 1
                   \<longrightarrow> count' = k + 1"
        and ih2: "\<forall>k. count + 1 \<le> k \<and> k < count' \<and> buf' ! nat k = 0xFF \<and> k + 1 \<le> 4000
          \<and> bits_read + 6 + 6 * (k + 1 - (count + 1)) < L \<longrightarrow> k + 1 < count'"
        by simp_all
      have p1: "\<forall>k. count \<le> k \<and> k < count' \<and> buf' ! nat k = 0xFF \<and> 4000 < k + 1
                   \<longrightarrow> count' = k + 1"
      proof (intro allI impI)
        fix k assume k: "count \<le> k \<and> k < count' \<and> buf' ! nat k = 0xFF \<and> 4000 < k + 1"
        show "count' = k + 1"
        proof (cases "k = count")
          case True
          then show ?thesis using k here cont by simp
        next
          case False
          then have "count + 1 \<le> k" using k by simp
          then show ?thesis using ih1 k by blast
        qed
      qed
      have p2: "\<forall>k. count \<le> k \<and> k < count' \<and> buf' ! nat k = 0xFF \<and> k + 1 \<le> 4000
          \<and> bits_read + 6 * (k + 1 - count) < L \<longrightarrow> k + 1 < count'"
      proof (intro allI impI)
        fix k assume k: "count \<le> k \<and> k < count' \<and> buf' ! nat k = 0xFF \<and> k + 1 \<le> 4000
          \<and> bits_read + 6 * (k + 1 - count) < L"
        show "k + 1 < count'"
        proof (cases "k = count")
          case True
          then have "bits_read + 6 < L \<and> count + 1 < 8192" using k by simp
          then show ?thesis using fr(3) True by simp
        next
          case False
          then have "count + 1 \<le> k" using k by simp
          moreover have "bits_read + 6 + 6 * (k + 1 - (count + 1)) < L" using k by simp
          ultimately show ?thesis using ih2 k by blast
        qed
      qed
      show ?thesis using p1 p2 by blast
    qed
  qed
qed

lemma zero_opcodes_length: "length zero_opcodes = 8192"
  by (simp add: zero_opcodes_def)

lemma bitstream_init_ok: "stream_ok (bitstream_init d) \<and> bits_left (bitstream_init d) = 8 * int (length d)"
  by (simp add: stream_ok_def bits_left_def bitstream_init_def)

text \<open>
  Claim C8, as the code has it. The function is total (its loop is defined with a
  termination proof). For every table, payload and bit budget, with the 8192-entry opcode
  buffer: the only failure is a read of the bit reader past the end of the payload, which
  neither the reader nor the loop prevents; when the function returns, the count is
  between 0 and 8192, the buffer is unchanged from index \<open>count\<close> on, and no opcode was
  decoded once the estimate of 6 bits per opcode had reached the budget or the buffer was
  full; and a payload of two bytes (16 bits) for each iteration the budget admits, at
  most 8192 of them, is never overrun, so that the function then returns.
\<close>

theorem decompress_all_opcodes_bounded:
  assumes "length opcodes_buffer = 8192"
  shows "(\<forall>e. huffman_decompress_all_opcodes huffman_table huffman_compressed_data bitstream_len
               opcodes_buffer = Inl e \<longrightarrow> e = ReadPastEnd)
       \<and> (\<forall>buf' count. huffman_decompress_all_opcodes huffman_table huffman_compressed_data
               bitstream_len opcodes_buffer = Inr (buf', count) \<longrightarrow>
             0 \<le> count \<and> count \<le> 8192 \<and> length buf' = 8192
             \<and> (\<forall>k<8192. count \<le> int k \<longrightarrow> buf' ! k = opcodes_buffer ! k)
             \<and> (count = 0 \<or> 6 * (count - 1) < bitstream_len))
       \<and> (2 * min 8192 ((bitstream_len + 5) div 6) \<le> int (length huffman_compressed_data)
             \<longrightarrow>
             (\<exists>buf' count. huffman_decompress_all_opcodes huffman_table huffman_compressed_data
                 bitstream_len opcodes_buffer = Inr (buf', count)))"
proof (intro conjI allI impI)
  fix e
  assume "huffman_decompress_all_opcodes huffman_table huffman_compressed_data bitstream_len
            opcodes_buffer = Inl e"
  then show "e = ReadPastEnd"
    using opcodes_loop_error[of huffman_table bitstream_len _ opcodes_buffer 0 0 e] assms
    by (simp add: huffman_decompress_all_opcodes_def)
next
  fix buf' count
  assume "huffman_decompress_all_opcodes huffman_table huffman_compressed_data bitstream_len
            opcodes_buffer = Inr (buf', count)"
  then have r: "opcodes_loop huffman_table bitstream_len
      (bitstream_init huffman_compressed_data, opcodes_buffer, 0, 0) = Inr (buf', count)"
    by (simp add: huffman_decompress_all_opcodes_def)
  from opcodes_loop_frame[OF r] assms
  have f: "0 \<le> count" "count \<le> 8192" "length buf' = 8192"
    "\<forall>k<8192. int k < 0 \<or> count \<le> int k \<longrightarrow> buf' ! k = opcodes_buffer ! k"
    "count = 0 \<or> 0 + 6 * (count - 0 - 1) < bitstream_len"
    by simp_all
  show "0 \<le> count" "count \<le> 8192" "length buf' = 8192" by fact+
  show "count = 0 \<or> 6 * (count - 1) < bitstream_len" using f(5) by simp
  show "buf' ! k = opcodes_buffer ! k" if "k < 8192" "count \<le> int k" for k
    using f(4) that by simp
next
  assume "2 * min 8192 ((bitstream_len + 5) div 6) \<le> int (length huffman_compressed_data)"
  then have "16 * min (8192 - 0) ((bitstream_len - 0 + 5) div 6)
      \<le> bits_left (bitstream_init huffman_compressed_data)"
    using bitstream_init_ok[of huffman_compressed_data] by simp
  from opcodes_loop_returns[OF _ this _ assms, of huffman_table]
    bitstream_init_ok[of huffman_compressed_data]
  show "\<exists>buf' count. huffman_decompress_all_opcodes huffman_table huffman_compressed_data
                 bitstream_len opcodes_buffer = Inr (buf', count)"
    by (simp add: huffman_decompress_all_opcodes_def)
qed

lemmas opcodes_eval = huffman_decompress_all_opcodes_def opcodes_loop.simps
  huffman_decode_opcode_def decode_loop.simps bitstream_init_def bitstream_read_bit_def
  array_read_def array_write_def shift_in_def

lemma sample_run:
  "length buf = 8192 \<Longrightarrow>
   huffman_decompress_all_opcodes sample_table [0x58] 18 buf
     = Inr (buf[0 := 0x05, 1 := 0x23, 2 := 0xFF], 3)"
  by (simp add: opcodes_eval sample_table_def)

lemma short_payload_run:
  "length buf = 8192 \<Longrightarrow>
   huffman_decompress_all_opcodes
     [\<lparr>code = 0, code_len = 7, opcode = 0x05\<rparr>, \<lparr>code = 1, code_len = 1, opcode = 0x23\<rparr>]
     [0x00, 0x00] 16 buf = Inl ReadPastEnd"
  by (simp add: opcodes_eval)

theorem decompress_all_opcodes_bounded_witness:
  "length zero_opcodes = 8192
   \<and> huffman_decompress_all_opcodes sample_table [0x58] 18 zero_opcodes
       = Inr (zero_opcodes[0 := 0x05, 1 := 0x23, 2 := 0xFF], 3)
   \<and> (0::int) \<le> 3 \<and> (3::int) \<le> 8192 \<and> 6 * (3 - 1) < (18::int)
   \<and> zero_opcodes[0 := 0x05, 1 := 0x23, 2 := 0xFF] ! 3 = zero_opcodes ! 3
   \<and> 2 * min 8192 ((49152 + 5) div 6) \<le> int (length zero_payload)
   \<and> (\<exists>buf' count. huffman_decompress_all_opcodes sample_table zero_payload 49152 zero_opcodes
         = Inr (buf', count))"
proof -
  note t = decompress_all_opcodes_bounded[OF zero_opcodes_length]
  have p: "2 * min 8192 ((49152 + 5) div 6) \<le> int (length zero_payload)"
    by (simp add: zero_payload_def)
  from t[of sample_table zero_payload 49152] p
  have "\<exists>buf' count. huffman_decompress_all_opcodes sample_table zero_payload 49152 zero_opcodes
         = Inr (buf', count)"
    by blast
  moreover from t[of sample_table "[0x58]" 18] sample_run[OF zero_opcodes_length]
  have "zero_opcodes[0 := 0x05, 1 := 0x23, 2 := 0xFF] ! 3 = zero_opcodes ! 3"
    by simp
  ultimately show ?thesis using p zero_opcodes_length sample_run[OF zero_opcodes_length]
    by simp
qed

text \<open>
  The claim as the specification words it fails on a payload that is shorter than what the
  loop reads: with a 7-bit codeword, two zero bytes and a budget of 16 bits, the third
  decode call refills from \<open>data[2]\<close>, outside the payload.
\<close>

theorem decompress_all_opcodes_reads_past_payload:
  "huffman_decompress_all_opcodes
     [\<lparr>code = 0, code_len = 7, opcode = 0x05\<rparr>, \<lparr>code = 1, code_len = 1, opcode = 0x23\<rparr>]
     [0x00, 0x00] 16 zero_opcodes = Inl ReadPastEnd"
  using short_payload_run[OF zero_opcodes_length] .

text \<open>
  Claim C10. In the loop of \<open>huffman_decompress_all_opcodes\<close>, started in any state (the
  function starts it with count 0 and estimate 0): an iteration that decodes 0xFF stores
  it at index \<open>opcode_count\<close> and, when the count including it exceeds 4000, returns at
  once with this count; otherwise it goes on with the next iteration. Hence, in every
  run that returns, a stored 0xFF that makes the count exceed 4000 is the last opcode of
  the run, and a stored 0xFF at a count of at most 4000 is followed by a further opcode
  whenever the bit budget admits another iteration.
\<close>

theorem opcodes_loop_terminator_break:
  assumes "0 \<le> opcode_count" "opcode_count < int (length opcodes_buffer)"
  shows "(bits_read < bitstream_len \<and> opcode_count < 8192
          \<and> huffman_decode_opcode huffman_table bs = Inr (0xFF, bs1) \<longrightarrow>
            opcodes_loop huffman_table bitstream_len (bs, opcodes_buffer, opcode_count, bits_read)
            = (if 4000 < opcode_count + 1
               then Inr (opcodes_buffer[nat opcode_count := 0xFF], opcode_count + 1)
               else opcodes_loop huffman_table bitstream_len
                      (bs1, opcodes_buffer[nat opcode_count := 0xFF], opcode_count + 1,
                       bits_read + 6)))
       \<and> (opcodes_loop huffman_table bitstream_len (bs, opcodes_buffer, opcode_count, bits_read)
            = Inr (buf', count') \<longrightarrow>
            (\<forall>k. opcode_count \<le> k \<and> k < count' \<and> buf' ! nat k = 0xFF \<and> 4000 < k + 1
               \<longrightarrow> count' = k + 1)
            \<and> (\<forall>k. opcode_count \<le> k \<and> k < count' \<and> buf' ! nat k = 0xFF \<and> k + 1 \<le> 4000
                  \<and> bits_read + 6 * (k + 1 - opcode_count) < bitstream_len
               \<longrightarrow> k + 1 < count'))"
proof (intro conjI impI)
  assume a: "bits_read < bitstream_len \<and> opcode_count < 8192
          \<and> huffman_decode_opcode huffman_table bs = Inr (0xFF, bs1)"
  have w: "array_write opcodes_buffer opcode_count 0xFF
             = Inr (opcodes_buffer[nat opcode_count := 0xFF])"
    using assms by (simp add: array_write_def)
  show "opcodes_loop huffman_table bitstream_len (bs, opcodes_buffer, opcode_count, bits_read)
            = (if 4000 < opcode_count + 1
               then Inr (opcodes_buffer[nat opcode_count := 0xFF], opcode_count + 1)
               else opcodes_loop huffman_table bitstream_len
                      (bs1, opcodes_buffer[nat opcode_count := 0xFF], opcode_count + 1,
                       bits_read + 6))"
    using a w
    by (simp add: opcodes_loop.simps[of huffman_table bitstream_len bs opcodes_buffer
          opcode_count bits_read])
next
  assume r: "opcodes_loop huffman_table bitstream_len
               (bs, opcodes_buffer, opcode_count, bits_read) = Inr (buf', count')"
  from opcodes_loop_break[OF r assms(1)]
  show "\<forall>k. opcode_count \<le> k \<and> k < count' \<and> buf' ! nat k = 0xFF \<and> 4000 < k + 1
               \<longrightarrow> count' = k + 1"
    and "\<forall>k. opcode_count \<le> k \<and> k < count' \<and> buf' ! nat k = 0xFF \<and> k + 1 \<le> 4000
                  \<and> bits_read + 6 * (k + 1 - opcode_count) < bitstream_len
               \<longrightarrow> k + 1 < count'"
    by blast+
qed

lemma threshold_run:
  "length buf = 8192 \<Longrightarrow>
   opcodes_loop sample_table 100 (bitstream_init [0xEC], buf, 3999, 0)
     = Inr (buf[3999 := 0xFF, 4000 := 0x23, 4001 := 0xFF], 4002)"
  by (simp add: opcodes_eval sample_table_def)

theorem opcodes_loop_terminator_break_witness:
  "(0::int) \<le> 3999 \<and> (3999::int) < int (length zero_opcodes)
   \<and> huffman_decode_opcode sample_table (bitstream_init [0xEC])
       = Inr (0xFF, \<lparr>buffer = 0x3B0, bits_available = 6, data = [0xEC], data_pos = 1\<rparr>)
   \<and> opcodes_loop sample_table 100 (bitstream_init [0xEC], zero_opcodes, 3999, 0)
       = opcodes_loop sample_table 100
           (\<lparr>buffer = 0x3B0, bits_available = 6, data = [0xEC], data_pos = 1\<rparr>,
            zero_opcodes[nat 3999 := 0xFF], 3999 + 1, 0 + 6)
   \<and> opcodes_loop sample_table 100 (bitstream_init [0xEC], zero_opcodes, 3999, 0)
       = Inr (zero_opcodes[3999 := 0xFF, 4000 := 0x23, 4001 := 0xFF], 4002)
   \<and> zero_opcodes[3999 := 0xFF, 4000 := 0x23, 4001 := 0xFF] ! nat 3999 = 0xFF
   \<and> (3999::int) + 1 < 4002
   \<and> zero_opcodes[3999 := 0xFF, 4000 := 0x23, 4001 := 0xFF] ! nat 4001 = 0xFF
   \<and> (4002::int) = 4001 + 1"
proof -
  let ?bs1 = "\<lparr>buffer = 0x3B0, bits_available = 6, data = [0xEC], data_pos = 1\<rparr>"
  let ?buf = "zero_opcodes[3999 := 0xFF, 4000 := 0x23, 4001 := 0xFF]"
  have z: "(0::int) \<le> 3999" and l: "(3999::int) < int (length zero_opcodes)"
    by (simp_all add: zero_opcodes_length)
  have d: "huffman_decode_opcode sample_table (bitstream_init [0xEC]) = Inr (0xFF, ?bs1)"
    by (simp add: huffman_decode_opcode_def decode_loop.simps bitstream_init_def
        bitstream_read_bit_def array_read_def shift_in_def sample_table_def)
  note r = threshold_run[OF zero_opcodes_length]
  have a: "?buf ! nat 3999 = 0xFF" and b: "?buf ! nat 4001 = 0xFF"
    by (simp_all add: zero_opcodes_length)
  note t = opcodes_loop_terminator_break[where opcode_count = 3999 and opcodes_buffer = zero_opcodes
      and bits_read = 0 and bitstream_len = 100 and huffman_table = sample_table
      and bs = "bitstream_init [0xEC]" and ?bs1.0 = ?bs1 and buf' = ?buf and count' = 4002,
      OF z l]
  have step: "opcodes_loop sample_table 100 (bitstream_init [0xEC], zero_opcodes, 3999, 0)
       = opcodes_loop sample_table 100 (?bs1, zero_opcodes[nat 3999 := 0xFF], 3999 + 1, 0 + 6)"
    using t[THEN conjunct1] d by simp
  have c: "\<forall>k. 3999 \<le> k \<and> k < 4002 \<and> ?buf ! nat k = 0xFF \<and> 4000 < k + 1
            \<longrightarrow> 4002 = k + 1"
    and e: "\<forall>k. 3999 \<le> k \<and> k < 4002 \<and> ?buf ! nat k = 0xFF
          \<and> k + 1 \<le> 4000 \<and> 0 + 6 * (k + 1 - 3999) < 100
            \<longrightarrow> k + 1 < 4002"
    using t[THEN conjunct2] r by blast+
  have "(4002::int) = 4001 + 1" using c[rule_format, of 4001] b by simp
  moreover have "(3999::int) + 1 < 4002" using e[rule_format, of 3999] a by simp
  ultimately show ?thesis using z l d step r a b by simp
qed

section \<open>Properties of the frame boundaries\<close>

lemma markers_take_Suc:
  assumes "0 \<le> i" "i < int (length ops)"
  shows "markers (take (nat (i + 1)) ops)
       = markers (take (nat i) ops) + (if ops ! nat i = 0xFF then 1 else 0)"
proof -
  have "nat (i + 1) = Suc (nat i)" using assms(1) by simp
  moreover have "nat i < length ops" using assms by simp
  ultimately show ?thesis by (simp add: markers_def take_Suc_conv_app_nth)
qed

lemma starts_ok_keep:
  assumes "starts_ok ops starts i" "ops ! nat i \<noteq> 0xFF"
  shows "starts_ok ops starts (i + 1)"
proof -
  have "ops ! nat p \<noteq> 0xFF" if "last starts \<le> p" "p < i + 1" for p
  proof (cases "p = i")
    case True
    then show ?thesis using assms(2) by simp
  next
    case False
    then show ?thesis using that assms(1) by (simp add: starts_ok_def)
  qed
  moreover have "\<forall>s \<in> set starts. 0 \<le> s \<and> s \<le> i + 1"
    using assms(1) by (fastforce simp: starts_ok_def)
  ultimately show ?thesis using assms(1) by (simp add: starts_ok_def)
qed

lemma starts_ok_add:
  assumes ok: "starts_ok ops starts i" and m: "ops ! nat i = 0xFF" and i: "0 \<le> i"
  shows "starts_ok ops (starts @ [i + 1]) (i + 1)"
proof -
  have ne: "starts \<noteq> []" and hd0: "hd starts = 0"
    and bnd: "\<forall>s \<in> set starts. 0 \<le> s \<and> s \<le> i"
    and pairs: "\<forall>j. Suc j < length starts \<longrightarrow>
            starts ! j < starts ! Suc j \<and> ops ! nat (starts ! Suc j - 1) = 0xFF
            \<and> (\<forall>p. starts ! j \<le> p \<and> p < starts ! Suc j - 1 \<longrightarrow> ops ! nat p \<noteq> 0xFF)"
    and tail: "\<forall>p. last starts \<le> p \<and> p < i \<longrightarrow> ops ! nat p \<noteq> 0xFF"
    using ok by (simp_all add: starts_ok_def)
  let ?s = "starts @ [i + 1]"
  have lastle: "last starts \<le> i" using bnd ne by simp
  have "?s ! j < ?s ! Suc j \<and> ops ! nat (?s ! Suc j - 1) = 0xFF
            \<and> (\<forall>p. ?s ! j \<le> p \<and> p < ?s ! Suc j - 1 \<longrightarrow> ops ! nat p \<noteq> 0xFF)"
    if j: "Suc j < length ?s" for j
  proof (cases "Suc j < length starts")
    case True
    then show ?thesis using pairs by (simp add: nth_append)
  next
    case False
    then have sj: "Suc j = length starts" using j by simp
    then have "j = length starts - 1" by simp
    then have a: "?s ! j = last starts" using ne sj by (simp add: nth_append last_conv_nth)
    have b: "?s ! Suc j = i + 1" using sj by (simp add: nth_append)
    show ?thesis using a b lastle m tail by simp
  qed
  moreover have "hd ?s = 0" using ne hd0 by simp
  moreover have "\<forall>s \<in> set ?s. 0 \<le> s \<and> s \<le> i + 1" using bnd i by fastforce
  moreover have "\<forall>p. last ?s \<le> p \<and> p < i + 1 \<longrightarrow> ops ! nat p \<noteq> 0xFF"
  proof (intro allI impI)
    fix p assume "last ?s \<le> p \<and> p < i + 1"
    then have False by auto
    then show "ops ! nat p \<noteq> 0xFF" ..
  qed
  ultimately show ?thesis unfolding starts_ok_def by blast
qed

lemma frame_starts_loop_inv:
  assumes "total_opcodes \<le> int (length ops)" "0 \<le> i"
    and "fs = map Some starts @ replicate (12 - nat fc) None"
    and "length starts = nat fc + 1" "0 \<le> fc" "fc \<le> 12"
    and "starts_ok ops starts i" "markers (take (nat i) ops) = nat fc"
  shows "\<exists>starts' fc' i'.
      frame_starts_loop ops total_opcodes i (fs, fc)
        = Inr (map Some starts' @ replicate (12 - nat fc') None, fc')
      \<and> length starts' = nat fc' + 1 \<and> 0 \<le> fc' \<and> fc' \<le> 12
      \<and> starts_ok ops starts' i' \<and> i \<le> i' \<and> i' \<le> max i total_opcodes
      \<and> (fc' = 12 \<or> (total_opcodes \<le> i' \<and> markers (take (nat i') ops) = nat fc'))"
  using assms
proof (induction ops total_opcodes i "(fs, fc)" arbitrary: fs fc starts rule: frame_starts_loop.induct)
  case (1 ops total_opcodes i fs fc)
  note simp = frame_starts_loop.simps[of ops total_opcodes i fs fc]
  show ?case
  proof (cases "i < total_opcodes \<and> fc < int FRAME_COUNT")
    case False
    then have r: "frame_starts_loop ops total_opcodes i (fs, fc) = Inr (fs, fc)"
      using simp by auto
    have "fc = 12 \<or> (total_opcodes \<le> i \<and> markers (take (nat i) ops) = nat fc)"
      using False "1.prems"(6,8) by (auto simp: FRAME_COUNT_def)
    then show ?thesis using r "1.prems" by (intro exI[of _ starts] exI[of _ fc] exI[of _ i]) simp
  next
    case True
    then have lt: "i < total_opcodes" "fc < 12" by (simp_all add: FRAME_COUNT_def)
    have il: "i < int (length ops)" using lt "1.prems"(1) by simp
    have rd: "array_read ops i = Inr (ops ! nat i)"
      using il "1.prems"(2) by (simp add: array_read_def)
    have i1: "0 \<le> i + 1" using "1.prems"(2) by simp
    show ?thesis
    proof (cases "ops ! nat i = 0xFF")
      case m: True
      let ?fs' = "fs[nat (fc + 1) := Some (i + 1)]"
      have lenfs: "length fs = 13" using "1.prems"(3,4,5,6) by simp
      have w: "array_write fs (fc + 1) (Some (i + 1)) = Inr ?fs'"
        using lenfs lt "1.prems"(5) by (simp add: array_write_def)
      have idx: "nat (fc + 1) = length (map Some starts)"
        using "1.prems"(4,5) by simp
      have rep: "replicate (12 - nat fc) (None :: int option)
                 = None # replicate (12 - nat (fc + 1)) None"
      proof -
        have "12 - nat fc = Suc (12 - nat (fc + 1))" using lt "1.prems"(5) by simp
        then show ?thesis by simp
      qed
      have fs': "?fs' = map Some (starts @ [i + 1]) @ replicate (12 - nat (fc + 1)) None"
        unfolding "1.prems"(3) idx rep by (simp add: list_update_append)
      have len': "length (starts @ [i + 1]) = nat (fc + 1) + 1"
        using "1.prems"(4,5) by simp
      have ok': "starts_ok ops (starts @ [i + 1]) (i + 1)"
        using starts_ok_add[OF "1.prems"(7) m "1.prems"(2)] .
      have mk: "markers (take (nat (i + 1)) ops) = nat (fc + 1)"
        using markers_take_Suc[OF "1.prems"(2) il] m "1.prems"(5,8) by simp
      have b: "0 \<le> fc + 1" "fc + 1 \<le> 12" using lt "1.prems"(5) by simp_all
      from "1.hyps"(1)[OF True rd m w "1.prems"(1) i1 fs' len' b ok' mk]
      obtain starts' fc' i' where
        r: "frame_starts_loop ops total_opcodes (i + 1) (?fs', fc + 1)
             = Inr (map Some starts' @ replicate (12 - nat fc') None, fc')"
        and p: "length starts' = nat fc' + 1" "0 \<le> fc'" "fc' \<le> 12"
          "starts_ok ops starts' i'" "i + 1 \<le> i'" "i' \<le> max (i + 1) total_opcodes"
          "fc' = 12 \<or> (total_opcodes \<le> i' \<and> markers (take (nat i') ops) = nat fc')"
        by blast
      have "frame_starts_loop ops total_opcodes i (fs, fc)
             = Inr (map Some starts' @ replicate (12 - nat fc') None, fc')"
        using True rd m w r by (simp add: simp)
      moreover have "i \<le> i'" "i' \<le> max i total_opcodes" using p(5,6) lt by simp_all
      ultimately show ?thesis using p by blast
    next
      case nm: False
      have ok': "starts_ok ops starts (i + 1)" using starts_ok_keep[OF "1.prems"(7) nm] .
      have mk: "markers (take (nat (i + 1)) ops) = nat fc"
        using markers_take_Suc[OF "1.prems"(2) il] nm "1.prems"(8) by simp
      from "1.hyps"(2)[OF True rd nm "1.prems"(1) i1 "1.prems"(3,4,5,6) ok' mk]
      obtain starts' fc' i' where
        r: "frame_starts_loop ops total_opcodes (i + 1) (fs, fc)
             = Inr (map Some starts' @ replicate (12 - nat fc') None, fc')"
        and p: "length starts' = nat fc' + 1" "0 \<le> fc'" "fc' \<le> 12"
          "starts_ok ops starts' i'" "i + 1 \<le> i'" "i' \<le> max (i + 1) total_opcodes"
          "fc' = 12 \<or> (total_opcodes \<le> i' \<and> markers (take (nat i') ops) = nat fc')"
        by blast
      have "frame_starts_loop ops total_opcodes i (fs, fc)
             = Inr (map Some starts' @ replicate (12 - nat fc') None, fc')"
        using True rd nm r by (simp add: simp)
      moreover have "i \<le> i'" "i' \<le> max i total_opcodes" using p(5,6) lt by simp_all
      ultimately show ?thesis using p by blast
    qed
  qed
qed

lemma local_read_Some:
  "k < length starts \<Longrightarrow> local_read (map Some starts) (int k) = Inr (starts ! k)"
  by (simp add: local_read_def array_read_def)

lemma frame_segment_Some:
  "Suc k < length starts \<Longrightarrow>
   frame_segment (map Some starts) (int k) = Inr (starts ! k, starts ! Suc k - starts ! k)"
  using local_read_Some[of k starts] local_read_Some[of "Suc k" starts]
  by (simp add: frame_segment_def add.commute)

lemma segments_from_all:
  assumes "length starts = 13"
  shows "f \<le> 12 \<Longrightarrow>
    segments_from (map Some starts) (int f)
      = Inr (map (\<lambda>k. (starts ! k, starts ! Suc k - starts ! k)) [f..<12])"
proof (induction "12 - f" arbitrary: f)
  case 0
  then have "f = 12" by simp
  then show ?case by (simp add: segments_from.simps FRAME_COUNT_def)
next
  case (Suc n)
  then have f: "f < 12" by simp
  have seg: "frame_segment (map Some starts) (int f) = Inr (starts ! f, starts ! Suc f - starts ! f)"
    using frame_segment_Some[of f starts] f assms by simp
  have "n = 12 - Suc f" using Suc.hyps(2) by simp
  from Suc.hyps(1)[OF this] f
  have rec: "segments_from (map Some starts) (int f + 1)
      = Inr (map (\<lambda>k. (starts ! k, starts ! Suc k - starts ! k)) [Suc f..<12])"
    by (simp add: add.commute)
  have "[f..<12] = f # [Suc f..<12]" using f by (simp add: upt_conv_Cons)
  then show ?case using f seg rec
    by (simp add: segments_from.simps[of _ "int f"] FRAME_COUNT_def)
qed

lemma concat_slices:
  assumes "\<forall>k<n. starts ! k \<le> starts ! Suc k" "starts ! 0 = 0"
  shows "concat (map (\<lambda>k. take (starts ! Suc k - starts ! k) (drop (starts ! k) ops)) [0..<n])
       = take (starts ! n) (ops :: 'a list)"
  using assms(1)
proof (induction n)
  case 0
  then show ?case using assms(2) by simp
next
  case (Suc n)
  have le: "starts ! n \<le> starts ! Suc n" using Suc.prems by simp
  have "concat (map (\<lambda>k. take (starts ! Suc k - starts ! k) (drop (starts ! k) ops)) [0..<Suc n])
      = take (starts ! n) ops @ take (starts ! Suc n - starts ! n) (drop (starts ! n) ops)"
    using Suc by simp
  also have "\<dots> = take (starts ! n + (starts ! Suc n - starts ! n)) ops"
    by (simp add: take_add)
  finally show ?case using le by simp
qed

lemma find_frame_starts_full:
  assumes "total_opcodes \<le> int (length ops)"
    and "12 \<le> markers (take (nat total_opcodes) ops)"
  shows "\<exists>starts fc i. find_frame_starts ops total_opcodes = Inr (map Some starts, fc)
           \<and> length starts = 13 \<and> starts_ok ops starts i \<and> i \<le> total_opcodes"
proof -
  have pos: "0 \<le> total_opcodes"
  proof (rule ccontr)
    assume "\<not> 0 \<le> total_opcodes"
    then have "nat total_opcodes = 0" by simp
    then show False using assms(2) by (simp add: markers_def)
  qed
  have init: "(replicate (FRAME_COUNT + 1) None)[0 := Some 0]
      = map Some [0::int] @ replicate (12 - nat 0) None"
    by (simp add: FRAME_COUNT_def numeral_eq_Suc)
  have ok0: "starts_ok ops [0] 0" by (auto simp: starts_ok_def)
  have m0: "markers (take (nat 0) ops) = nat 0" by (simp add: markers_def)
  from frame_starts_loop_inv[OF assms(1) _ init _ _ _ ok0 m0]
  obtain starts fc i where
    r: "frame_starts_loop ops total_opcodes 0 ((replicate (FRAME_COUNT + 1) None)[0 := Some 0], 0)
          = Inr (map Some starts @ replicate (12 - nat fc) None, fc)"
    and p: "length starts = nat fc + 1" "0 \<le> fc" "fc \<le> 12" "starts_ok ops starts i"
      "0 \<le> i" "i \<le> max 0 total_opcodes"
      "fc = 12 \<or> (total_opcodes \<le> i \<and> markers (take (nat i) ops) = nat fc)"
    by auto
  have i: "i \<le> total_opcodes" using p(6) pos by simp
  have "fc = 12"
  proof (rule ccontr)
    assume n: "fc \<noteq> 12"
    then have "total_opcodes \<le> i" "markers (take (nat i) ops) = nat fc" using p(7) by simp_all
    then have "markers (take (nat total_opcodes) ops) = nat fc" using i by simp
    then show False using assms(2) n p(2,3) by simp
  qed
  then show ?thesis using r p(1,4) i by (auto simp: find_frame_starts_def)
qed

lemma starts_ok_segment:
  assumes ok: "starts_ok ops starts i" and i: "i \<le> int (length ops)"
    and k: "Suc k < length starts"
  shows "0 \<le> starts ! k" "starts ! k < starts ! Suc k" "starts ! Suc k \<le> i"
    "\<exists>body. segment_opcodes ops (starts ! k, starts ! Suc k - starts ! k) = body @ [0xFF]
        \<and> 0xFF \<notin> set body"
proof -
  let ?a = "starts ! k" and ?b = "starts ! Suc k"
  have bnd: "\<forall>s \<in> set starts. 0 \<le> s \<and> s \<le> i"
    and pairs: "?a < ?b" "ops ! nat (?b - 1) = 0xFF"
      "\<forall>p. ?a \<le> p \<and> p < ?b - 1 \<longrightarrow> ops ! nat p \<noteq> 0xFF"
    using ok k by (simp_all add: starts_ok_def)
  show a0: "0 \<le> ?a" using bnd k by simp
  show ab: "?a < ?b" by fact
  show bi: "?b \<le> i" using bnd k by simp
  let ?n = "nat (?b - ?a - 1)"
  let ?xs = "drop (nat ?a) ops"
  have n: "nat (?b - ?a) = Suc ?n" using ab by simp
  have nlen: "?n < length ?xs" using a0 ab bi i by simp
  have "segment_opcodes ops (?a, ?b - ?a) = take (Suc ?n) ?xs"
    using n by (simp add: segment_opcodes_def)
  also have "\<dots> = take ?n ?xs @ [?xs ! ?n]" using nlen by (rule take_Suc_conv_app_nth)
  also have "?xs ! ?n = ops ! (nat ?a + ?n)" using nlen by simp
  also have "nat ?a + ?n = nat (?b - 1)" using a0 ab by simp
  finally have seg: "segment_opcodes ops (?a, ?b - ?a) = take ?n ?xs @ [0xFF]"
    using pairs(2) by simp
  have "0xFF \<notin> set (take ?n ?xs)"
  proof
    assume "0xFF \<in> set (take ?n ?xs)"
    then obtain q where q: "q < length (take ?n ?xs)" "take ?n ?xs ! q = 0xFF"
      by (auto simp: in_set_conv_nth)
    then have qn: "q < ?n" by simp
    then have "take ?n ?xs ! q = ops ! (nat ?a + q)" using nlen by simp
    moreover have "nat ?a + q = nat (?a + int q)" using a0 by simp
    moreover have "ops ! nat (?a + int q) \<noteq> 0xFF"
      using pairs(3) qn by (intro pairs(3)[rule_format]) linarith
    ultimately show False using q(2) by simp
  qed
  then show "\<exists>body. segment_opcodes ops (?a, ?b - ?a) = body @ [0xFF] \<and> 0xFF \<notin> set body"
    using seg by blast
qed

text \<open>
  Claim C3, as the code has it. A marker ends a segment, so twelve segments need twelve
  markers. For every opcode sequence with at least 12 markers among its
  \<open>total_opcodes\<close> opcodes, the splitting step yields exactly 12 segments; they are
  contiguous from index 0 (so they do not overlap), each ends with a marker and holds no
  other one, and their concatenation is the sequence up to and including the twelfth
  marker.
\<close>

theorem split_segments_twelve_terminators:
  assumes "total_opcodes \<le> int (length opcodes_buffer)"
    and "12 \<le> markers (take (nat total_opcodes) opcodes_buffer)"
  shows "\<exists>segs. split_segments opcodes_buffer total_opcodes = Inr segs \<and> length segs = 12
      \<and> fst (segs ! 0) = 0
      \<and> (\<forall>k<11. fst (segs ! Suc k) = fst (segs ! k) + snd (segs ! k))
      \<and> (\<forall>k<12. \<exists>body. segment_opcodes opcodes_buffer (segs ! k) = body @ [0xFF]
                      \<and> 0xFF \<notin> set body)
      \<and> fst (segs ! 11) + snd (segs ! 11) \<le> total_opcodes
      \<and> concat (map (segment_opcodes opcodes_buffer) segs)
          = take (nat (fst (segs ! 11) + snd (segs ! 11))) opcodes_buffer"
proof -
  from find_frame_starts_full[OF assms] obtain starts fc i where
    r: "find_frame_starts opcodes_buffer total_opcodes = Inr (map Some starts, fc)"
    and len: "length starts = 13" and ok: "starts_ok opcodes_buffer starts i"
    and i: "i \<le> total_opcodes"
    by blast
  let ?seg = "\<lambda>k. (starts ! k, starts ! Suc k - starts ! k)"
  let ?segs = "map ?seg [0..<12]"
  have il: "i \<le> int (length opcodes_buffer)" using i assms(1) by simp
  note seg = starts_ok_segment[OF ok il]
  have split: "split_segments opcodes_buffer total_opcodes = Inr ?segs"
    using r segments_from_all[OF len, of 0] by (simp add: split_segments_def)
  have nth: "?segs ! k = ?seg k" if "k < 12" for k using that by simp
  have hd0: "starts ! 0 = 0" using ok len by (cases starts) (simp_all add: starts_ok_def)
  have c1: "fst (?segs ! 0) = 0" using hd0 by simp
  have c2: "\<forall>k<11. fst (?segs ! Suc k) = fst (?segs ! k) + snd (?segs ! k)"
    by simp
  have c3: "\<forall>k<12. \<exists>body. segment_opcodes opcodes_buffer (?segs ! k) = body @ [0xFF]
                      \<and> 0xFF \<notin> set body"
  proof (intro allI impI)
    fix k :: nat assume k: "k < 12"
    then have "Suc k < length starts" using len by simp
    from seg(4)[OF this] show "\<exists>body. segment_opcodes opcodes_buffer (?segs ! k) = body @ [0xFF]
                      \<and> 0xFF \<notin> set body"
      using nth[OF k] by simp
  qed
  have e: "fst (?segs ! 11) + snd (?segs ! 11) = starts ! 12" by simp
  have c4: "fst (?segs ! 11) + snd (?segs ! 11) \<le> total_opcodes"
    using seg(3)[of 11] len i e by simp
  let ?ns = "map nat starts"
  have mono: "\<forall>k<12. ?ns ! k \<le> ?ns ! Suc k"
  proof (intro allI impI)
    fix k :: nat assume k: "k < 12"
    then have sk: "Suc k < length starts" using len by simp
    show "?ns ! k \<le> ?ns ! Suc k" using seg(2)[OF sk] sk by simp
  qed
  have slice: "segment_opcodes opcodes_buffer (?seg k)
      = take (?ns ! Suc k - ?ns ! k) (drop (?ns ! k) opcodes_buffer)" if "k < 12" for k
  proof -
    have sk: "Suc k < length starts" using that len by simp
    have "nat (starts ! Suc k - starts ! k) = nat (starts ! Suc k) - nat (starts ! k)"
      using seg(1)[OF sk] seg(2)[OF sk] by simp
    then show ?thesis using sk by (simp add: segment_opcodes_def)
  qed
  have "map (segment_opcodes opcodes_buffer) ?segs
      = map (\<lambda>k. take (?ns ! Suc k - ?ns ! k) (drop (?ns ! k) opcodes_buffer)) [0..<12]"
    unfolding map_map comp_def by (rule map_cong[OF refl]) (simp add: slice)
  then have "concat (map (segment_opcodes opcodes_buffer) ?segs)
      = concat (map (\<lambda>k. take (?ns ! Suc k - ?ns ! k) (drop (?ns ! k) opcodes_buffer)) [0..<12])"
    by (rule arg_cong)
  also have "\<dots> = take (?ns ! 12) opcodes_buffer"
    using concat_slices[of 12 ?ns opcodes_buffer] mono hd0 len by simp
  finally have c5: "concat (map (segment_opcodes opcodes_buffer) ?segs)
          = take (nat (fst (?segs ! 11) + snd (?segs ! 11))) opcodes_buffer"
    using e len by simp
  show ?thesis using split c1 c2 c3 c4 c5
    by (intro exI[of _ ?segs]) simp
qed

lemmas split_eval = split_segments_def find_frame_starts_def frame_starts_loop.simps
  segments_from.simps frame_segment_def local_read_def array_read_def array_write_def
  FRAME_COUNT_def

theorem split_segments_twelve_terminators_witness:
  "(15::int) \<le> int (length [0x05, 0x23, 0xFF, 0xFF, 0x12, 0xFF, 0xFF, 0xFF, 0xFF, 0xFF, 0xFF,
                               0xFF, 0xFF, 0xFF, 0xFF :: u8])
   \<and> 12 \<le> markers (take (nat 15) [0x05, 0x23, 0xFF, 0xFF, 0x12, 0xFF, 0xFF, 0xFF, 0xFF, 0xFF,
                                    0xFF, 0xFF, 0xFF, 0xFF, 0xFF])
   \<and> (\<exists>segs. split_segments [0x05, 0x23, 0xFF, 0xFF, 0x12, 0xFF, 0xFF, 0xFF, 0xFF, 0xFF, 0xFF,
                               0xFF, 0xFF, 0xFF, 0xFF] 15 = Inr segs
         \<and> segs = [(0, 3), (3, 1), (4, 2), (6, 1), (7, 1), (8, 1), (9, 1), (10, 1), (11, 1),
                   (12, 1), (13, 1), (14, 1)]
         \<and> length segs = 12 \<and> fst (segs ! 0) = 0
         \<and> concat (map (segment_opcodes [0x05, 0x23, 0xFF, 0xFF, 0x12, 0xFF, 0xFF, 0xFF, 0xFF,
                                          0xFF, 0xFF, 0xFF, 0xFF, 0xFF, 0xFF]) segs)
             = take (nat (fst (segs ! 11) + snd (segs ! 11)))
                 [0x05, 0x23, 0xFF, 0xFF, 0x12, 0xFF, 0xFF, 0xFF, 0xFF, 0xFF, 0xFF, 0xFF, 0xFF,
                  0xFF, 0xFF])"
proof -
  let ?ops = "[0x05, 0x23, 0xFF, 0xFF, 0x12, 0xFF, 0xFF, 0xFF, 0xFF, 0xFF, 0xFF,
               0xFF, 0xFF, 0xFF, 0xFF] :: u8 list"
  have l: "(15::int) \<le> int (length ?ops)" by simp
  have m: "12 \<le> markers (take (nat 15) ?ops)" by (simp add: markers_def)
  have e: "split_segments ?ops 15 = Inr [(0, 3), (3, 1), (4, 2), (6, 1), (7, 1), (8, 1), (9, 1),
             (10, 1), (11, 1), (12, 1), (13, 1), (14, 1)]"
    by (simp add: split_eval)
  from split_segments_twelve_terminators[OF l m] e l m show ?thesis by auto
qed

text \<open>
  The claim as the specification words it fails: on a sequence with exactly 11 markers,
  none of them at the end, the end of the twelfth segment is read from
  \<open>frame_starts[12]\<close>, which no marker has assigned.
\<close>

theorem split_segments_eleven_markers:
  "markers [0x05, 0xFF, 0x05, 0xFF, 0x05, 0xFF, 0x05, 0xFF, 0x05, 0xFF, 0x05, 0xFF, 0x05, 0xFF,
            0x05, 0xFF, 0x05, 0xFF, 0x05, 0xFF, 0x05, 0xFF, 0x05] = 11
   \<and> split_segments [0x05, 0xFF, 0x05, 0xFF, 0x05, 0xFF, 0x05, 0xFF, 0x05, 0xFF, 0x05, 0xFF, 0x05,
                     0xFF, 0x05, 0xFF, 0x05, 0xFF, 0x05, 0xFF, 0x05, 0xFF, 0x05] 23
       = Inl UninitRead"
  by (simp add: markers_def split_eval)

lemma decompress_frame_returns:
  assumes "length frame_buffer = FRAME_SIZE" "length prev_frame_buffer = FRAME_SIZE"
    "opcode_len \<le> int (length opcodes)"
  shows "\<exists>fb'. decompress_frame frame_index opcodes opcode_len (frame_buffer, prev_frame_buffer)
           = Inr (fb', fb') \<and> length fb' = FRAME_SIZE"
proof -
  from decompress_frame_cursor_inv[OF assms, of frame_index] obtain fb' pos c where
    r: "decompress_frame_cursor frame_index opcodes opcode_len
          (frame_buffer, prev_frame_buffer) = Inr (fb', pos, c)"
    and l: "length fb' = FRAME_SIZE"
    by blast
  have "copy_loop 0 fb' prev_frame_buffer = Inr fb'" using copy_loop_whole[OF l assms(2)] .
  then show ?thesis using r l by (simp add: decompress_frame_def)
qed

text \<open>
  Claim C2, evaluated. With one marker only, \<open>main\<close> assigns \<open>frame_starts[0]\<close> and
  \<open>frame_starts[1]\<close>; frame 0 gets the segment (0, 3), and for frame 1 the end of the
  segment is read from an element that was never assigned: the remaining segments have
  no defined length, rather than the length zero.
\<close>

theorem main_frames_missing_terminators:
  "find_frame_starts [0x05, 0x23, 0xFF] 3
     = Inr ([Some 0, Some 3, None, None, None, None, None, None, None, None, None, None, None], 1)
   \<and> frame_segment [Some 0, Some 3, None, None, None, None, None, None, None, None, None, None,
                     None] 0 = Inr (0, 3)
   \<and> frame_segment [Some 0, Some 3, None, None, None, None, None, None, None, None, None, None,
                     None] 1 = Inl UninitRead
   \<and> main_frames [0x05, 0x23, 0xFF] 3 (zero_frame, zero_frame) = Inl UninitRead"
proof -
  let ?fs = "[Some 0, Some 3, None, None, None, None, None, None, None, None, None, None, None]
               :: int option list"
  have rep: "replicate 13 (None :: int option)
      = [None, None, None, None, None, None, None, None, None, None, None, None, None]"
    by (simp add: numeral_eq_Suc)
  have f: "find_frame_starts [0x05, 0x23, 0xFF] 3 = Inr (?fs, 1)"
    by (simp add: split_eval rep)
  have s0: "frame_segment ?fs 0 = Inr (0, 3)" and s1: "frame_segment ?fs 1 = Inl UninitRead"
    by (simp_all add: frame_segment_def local_read_def array_read_def)
  from decompress_frame_returns[OF zero_frame_length zero_frame_length, of 3 "[0x05, 0x23, 0xFF]" 0]
  obtain fb' where d: "decompress_frame 0 [0x05, 0x23, 0xFF] 3 (zero_frame, zero_frame) = Inr (fb', fb')"
    by auto
  have "frames_loop [0x05, 0x23, 0xFF] ?fs 0 (zero_frame, zero_frame) [] = Inl UninitRead"
    using s0 s1 d
    by (simp add: frames_loop.simps[of _ _ 0] frames_loop.simps[of _ _ 1] FRAME_COUNT_def)
  then show ?thesis using f s0 s1 by (simp add: main_frames_def)
qed

lemma frame0_loop_empty: "frame0_loop opcodes 0 0 s = Inr s"
  by (cases s) (simp add: frame0_loop.simps)

lemma delta_loop_empty: "delta_loop opcodes 0 0 s = Inr s"
  by (cases s) (simp add: delta_loop.simps)

text \<open>
  An empty segment, on \<open>decompress_frame\<close> alone: frame 0 becomes the all-zero frame, and a
  delta frame a copy of its predecessor.
\<close>

theorem empty_segment_reconstruction:
  assumes "length frame_buffer = FRAME_SIZE" "length prev_frame_buffer = FRAME_SIZE"
  shows "decompress_frame 0 opcodes 0 (frame_buffer, prev_frame_buffer)
           = Inr (zero_frame, zero_frame)
       \<and> (frame_index \<noteq> 0 \<longrightarrow>
            decompress_frame frame_index opcodes 0 (frame_buffer, prev_frame_buffer)
              = Inr (prev_frame_buffer, prev_frame_buffer))"
proof
  from fill_loop_spec[of 0 frame_buffer] assms(1) obtain fb' where
    f: "fill_loop (frame_buffer, 0) = Inr (fb', max 0 (int FRAME_SIZE))"
    and l: "length fb' = FRAME_SIZE" and p: "\<forall>k<FRAME_SIZE. fb' ! k = (if 0 \<le> int k then 0 else frame_buffer ! k)"
    by auto
  have "fb' = zero_frame" using l p by (intro nth_equalityI) (simp_all add: zero_frame_def)
  moreover have "copy_loop 0 zero_frame prev_frame_buffer = Inr zero_frame"
    using copy_loop_whole[OF zero_frame_length assms(2)] .
  ultimately show "decompress_frame 0 opcodes 0 (frame_buffer, prev_frame_buffer)
           = Inr (zero_frame, zero_frame)"
    using f by (simp add: decompress_frame_def decompress_frame_cursor_def frame0_loop_empty)
next
  show "frame_index \<noteq> 0 \<longrightarrow>
            decompress_frame frame_index opcodes 0 (frame_buffer, prev_frame_buffer)
              = Inr (prev_frame_buffer, prev_frame_buffer)"
    using copy_loop_whole[OF assms(2,1)] copy_loop_whole[OF assms(2,2)]
    by (simp add: decompress_frame_def decompress_frame_cursor_def delta_loop_empty)
qed

theorem empty_segment_reconstruction_witness:
  "length zero_frame = FRAME_SIZE
   \<and> decompress_frame 0 [] 0 (zero_frame[7 := 3], zero_frame[9 := 4])
       = Inr (zero_frame, zero_frame)
   \<and> decompress_frame 5 [] 0 (zero_frame[7 := 3], zero_frame[9 := 4])
       = Inr (zero_frame[9 := 4], zero_frame[9 := 4])"
proof -
  have l: "length (zero_frame[7 := 3]) = FRAME_SIZE" "length (zero_frame[9 := 4]) = FRAME_SIZE"
    by (simp_all add: zero_frame_length)
  from empty_segment_reconstruction[OF l, of "[]" 5] zero_frame_length
  show ?thesis by simp
qed

end
